theory Spec2Isabelle
  imports Main "HOL-Library.Multiset" "HOL-Library.Char_ord" "HOL-Library.List_Lexorder"
begin

section \<open>Rank sharding (data\_loader.py, AllamoDataset.limit\_samples\_to\_rank)\<close>

text \<open>
  The extended slice \<^verbatim>\<open>samples[start::step]\<close> of Python, for a non-negative start: it
  reads the list at \<open>start\<close>, \<open>start + step\<close>, ... while the index is inside the list.
  Python rejects a step of zero with a ValueError; the only caller guards the slice
  with \<^verbatim>\<open>world_size > 1\<close>, so that branch of the model is never taken.
\<close>

function slice_from_step :: "nat \<Rightarrow> nat \<Rightarrow> 'a list \<Rightarrow> 'a list" where
  "slice_from_step start step xs =
     (if step = 0 \<or> length xs \<le> start then []
      else xs ! start # slice_from_step (start + step) step xs)"
  by pat_completeness auto
termination
  by (relation "measure (\<lambda>(start, step, xs). length xs - start)") auto

declare slice_from_step.simps [simp del]

text \<open>
  \<^verbatim>\<open>return list(s for s in samples[self.rank::self.world_size]) if self.world_size > 1 else samples\<close>
\<close>

definition limit_samples_to_rank :: "nat \<Rightarrow> nat \<Rightarrow> 'a list \<Rightarrow> 'a list" where
  "limit_samples_to_rank rank world_size samples =
     (if world_size > 1 then slice_from_step rank world_size samples else samples)"

section \<open>The sample store (data\_loader.py, class AllamoDataset)\<close>

text \<open>
  Every \<^verbatim>\<open>raise\<close> and failed \<^verbatim>\<open>assert\<close> of the modelled code, and every exception of the
  Python runtime that the modelled code can trigger, is a value of this type.
\<close>

datatype error =
    TrainingFilesNotFound   \<comment> \<open>\<^verbatim>\<open>raise Exception('Training dataset files not found!')\<close>\<close>
  | InputIdsNotFound   \<comment> \<open>\<^verbatim>\<open>raise Exception("'input_ids' field not found in sample! ...")\<close>\<close>
  | AssertionError
  | IndexError
  | KeyError
  | TypeError
  | RuntimeError

text \<open>
  The part of an \<^verbatim>\<open>AllamoDataset\<close> that the cursor works on: the catalog, the ledger of
  processed files, and the samples of the file that is loaded (\<open>None\<close> for
  \<^verbatim>\<open>self.data = None\<close>).
\<close>

record 'a dataset =
  dataset_files :: "string list"
  processed_files :: "string list"
  data :: "'a list option"

text \<open>
  \<^verbatim>\<open>load_dataset_file\<close> appends the file to the ledger first and then parses it. The parsing
  (format dispatch on the extension, reading from disk, alignment, sharding: lines 69 to
  104) reads the file system, so it is the parameter \<open>rd\<close>: the samples that the file
  yields for this rank, the empty list when the file is skipped for being too short or
  unsupported (\<^verbatim>\<open>new_data\<close> falsy), or the error it raises.
\<close>

definition load_dataset_file ::
  "(string \<Rightarrow> error + 'a list) \<Rightarrow> string \<Rightarrow> 'a dataset \<Rightarrow> error + (bool \<times> 'a dataset)" where
  "load_dataset_file rd f ds =
     (let ds1 = ds\<lparr>processed_files := processed_files ds @ [f]\<rparr> in
      case rd f of
        Inl e \<Rightarrow> Inl e
      | Inr new_data \<Rightarrow>
          if new_data \<noteq> [] then Inr (True, ds1\<lparr>data := Some new_data\<rparr>)
          else Inr (False, ds1))"

text \<open>
  The loop of \<^verbatim>\<open>load_next_dataset\<close> over the catalog: the membership test reads the ledger
  as it is at that moment, with the files appended by earlier iterations.
\<close>

fun load_next_loop ::
  "(string \<Rightarrow> error + 'a list) \<Rightarrow> string list \<Rightarrow> 'a dataset \<Rightarrow> error + (bool \<times> 'a dataset)" where
  "load_next_loop rd [] ds = Inr (False, ds)"
| "load_next_loop rd (ds_file # rest) ds =
     (if ds_file \<notin> set (processed_files ds) then
        (case load_dataset_file rd ds_file ds of
           Inl e \<Rightarrow> Inl e
         | Inr (loaded, ds') \<Rightarrow> if loaded then Inr (True, ds') else load_next_loop rd rest ds')
      else load_next_loop rd rest ds)"

text \<open>
  A file is usable when parsing it yields at least one sample for this rank: the test
  \<^verbatim>\<open>if new_data:\<close> at the end of \<^verbatim>\<open>load_dataset_file\<close>.
\<close>

definition usable :: "(string \<Rightarrow> error + 'a list) \<Rightarrow> string \<Rightarrow> bool" where
  "usable rd f = (case rd f of Inl e \<Rightarrow> False | Inr new_data \<Rightarrow> new_data \<noteq> [])"

definition load_next_dataset ::
  "(string \<Rightarrow> error + 'a list) \<Rightarrow> 'a dataset \<Rightarrow> error + (bool \<times> 'a dataset)" where
  "load_next_dataset rd ds = load_next_loop rd (dataset_files ds) (ds\<lparr>data := None\<rparr>)"

text \<open>
  The constructor, after the catalog has been resolved: the ledger starts as the first
  \<^verbatim>\<open>dataset_train_processed_files_count\<close> catalog files and the next file is loaded; the
  result of \<^verbatim>\<open>load_next_dataset\<close> is not looked at.
\<close>

definition dataset_init ::
  "(string \<Rightarrow> error + 'a list) \<Rightarrow> string list \<Rightarrow> nat \<Rightarrow> error + 'a dataset" where
  "dataset_init rd files processed_files_count =
     (case load_next_dataset rd
             \<lparr>dataset_files = files,
              processed_files = (if processed_files_count > 0 then take processed_files_count files else []),
              data = None\<rparr> of
        Inl e \<Rightarrow> Inl e
      | Inr (_, ds) \<Rightarrow> Inr ds)"

text \<open>\<^verbatim>\<open>__len__\<close>: \<^verbatim>\<open>len(self.data) if self.data else 0\<close>.\<close>

definition len :: "'a dataset \<Rightarrow> nat" where
  "len ds = (case data ds of None \<Rightarrow> 0 | Some d \<Rightarrow> length d)"

text \<open>\<^verbatim>\<open>has_data\<close>: \<^verbatim>\<open>self.data and len(self.data) > 0\<close>.\<close>

definition has_data :: "'a dataset \<Rightarrow> bool" where
  "has_data ds = (case data ds of None \<Rightarrow> False | Some d \<Rightarrow> d \<noteq> [])"

text \<open>
  \<^verbatim>\<open>__getitem__\<close> with an integer index returns \<^verbatim>\<open>None\<close> for an index that is not below
  the length, and with a slice \<^verbatim>\<open>[lo:hi]\<close> (both bounds non-negative) the samples in that
  window; slicing \<^verbatim>\<open>None\<close> is a TypeError. For a file in the \<^verbatim>\<open>.alm\<close> format each sample
  read is passed through \<^verbatim>\<open>prepare_alm_sample\<close>, which is modelled on its own below; here
  the sample is returned as stored.
\<close>

definition getitem :: "'a dataset \<Rightarrow> nat \<Rightarrow> 'a option" where
  "getitem ds idx = (if idx < len ds then Some (the (data ds) ! idx) else None)"

definition getitem_slice :: "'a dataset \<Rightarrow> nat \<Rightarrow> nat \<Rightarrow> error + 'a option list" where
  "getitem_slice ds lo hi =
     (case data ds of
        None \<Rightarrow> Inl TypeError
      | Some d \<Rightarrow> Inr (map Some (take (hi - lo) (drop lo d))))"

section \<open>The data loader (data\_loader.py, class AllamoDataLoader)\<close>

text \<open>
  The worker thread of the prefetch buffer is either running (\<open>Alive\<close>) or has returned.
\<close>

datatype thread = Alive | Finished

text \<open>
  The loader: the configuration values it reads, the cursor (\<open>dataset_offset\<close>, \<open>epoch\<close>),
  the two datasets (\<open>val_dataset\<close> is \<open>None\<close> when the validation split has no data), and
  the prefetch slot, which holds a collated batch and the offset after it.
\<close>

record 'a loader =
  dataset_seq_train :: bool
  dataset_buffer :: bool
  batch_size :: nat
  dataset_offset :: nat
  epoch :: nat
  train_dataset :: "'a dataset"
  val_dataset :: "'a dataset option"
  buffer :: "('a list \<times> nat) option"
  buffer_thread :: "thread option"

text \<open>
  The constructor with \<^verbatim>\<open>load_datasets\<close>, given the two datasets it has built: the cursor
  starts at \<^verbatim>\<open>dataset_seq_train_start\<close> (zero when it is unset or training is not
  sequential), the epoch at zero, the slot is empty, and a validation dataset without
  data is dropped.
\<close>

definition loader_init ::
  "bool \<Rightarrow> bool \<Rightarrow> nat \<Rightarrow> nat option \<Rightarrow> 'a dataset \<Rightarrow> 'a dataset \<Rightarrow> 'a loader" where
  "loader_init seq_train use_buffer bs seq_train_start train val =
     \<lparr>dataset_seq_train = seq_train,
      dataset_buffer = use_buffer,
      batch_size = bs,
      dataset_offset = (if seq_train then (case seq_train_start of None \<Rightarrow> 0 | Some n \<Rightarrow> n) else 0),
      epoch = 0,
      train_dataset = train,
      val_dataset = (if has_data val then Some val else None),
      buffer = None,
      buffer_thread = None\<rparr>"

text \<open>
  \<^verbatim>\<open>prepare_samples\<close> stacks the samples of a batch and moves them to the device. The
  model keeps the batch as the list of its samples, in order. What it keeps of the
  failures: \<^verbatim>\<open>samples[0]\<close> on an empty batch is an IndexError, and a \<^verbatim>\<open>None\<close> among the
  samples (an index outside the loaded file) is a TypeError when it is subscripted.
\<close>

definition prepare_samples :: "'a option list \<Rightarrow> error + 'a list" where
  "prepare_samples samples =
     (if samples = [] then Inl IndexError
      else if None \<in> set samples then Inl TypeError
      else Inr (map the samples))"

text \<open>
  \<^verbatim>\<open>reload_dataset\<close>, always called on the training dataset (the sequential branch of
  \<^verbatim>\<open>get_batch\<close> requires the train split).
\<close>

definition reload_dataset ::
  "(string \<Rightarrow> error + 'a list) \<Rightarrow> 'a loader \<Rightarrow> error + 'a loader" where
  "reload_dataset rd s =
     (if length (dataset_files (train_dataset s)) > 1 then
        (case load_next_dataset rd (train_dataset s) of
           Inl e \<Rightarrow> Inl e
         | Inr (loaded, ds') \<Rightarrow>
             if loaded then Inr (s\<lparr>train_dataset := ds', dataset_offset := 0\<rparr>)
             else
               (case load_next_dataset rd (ds'\<lparr>processed_files := []\<rparr>) of
                  Inl e \<Rightarrow> Inl e
                | Inr (reloaded, ds'') \<Rightarrow>
                    if reloaded
                    then Inr (s\<lparr>train_dataset := ds'', dataset_offset := 0, epoch := epoch s + 1\<rparr>)
                    else Inl AssertionError))
      else Inr (s\<lparr>dataset_offset := 0, epoch := epoch s + 1\<rparr>))"

text \<open>
  The worker: \<^verbatim>\<open>update_buffer\<close> collates the window at the cursor and stores it with the
  offset after it. An exception inside the thread ends the thread and leaves the slot as
  it was. The model runs the worker as one atomic step, which is what the lock provides
  for the slot.
\<close>

definition update_buffer :: "'a loader \<Rightarrow> 'a loader" where
  "update_buffer s =
     (case getitem_slice (train_dataset s) (dataset_offset s) (dataset_offset s + batch_size s) of
        Inl e \<Rightarrow> s
      | Inr samples \<Rightarrow>
          (case prepare_samples samples of
             Inl e \<Rightarrow> s
           | Inr batch \<Rightarrow> s\<lparr>buffer := Some (batch, dataset_offset s + batch_size s)\<rparr>))"

definition worker_run :: "'a loader \<Rightarrow> 'a loader" where
  "worker_run s =
     (if buffer_thread s = Some Alive then (update_buffer s)\<lparr>buffer_thread := Some Finished\<rparr>
      else s)"

definition reload_buffer :: "'a loader \<Rightarrow> 'a loader" where
  "reload_buffer s =
     (let s1 = s\<lparr>buffer := None\<rparr> in
      if dataset_offset s1 + batch_size s1 \<le> len (train_dataset s1)
      then s1\<lparr>buffer_thread := Some Alive\<rparr>
      else s1\<lparr>buffer_thread := None\<rparr>)"

text \<open>
  \<^verbatim>\<open>get_batch_from_buffer\<close>: subscripting an empty slot is a TypeError (the caller tests
  the slot first), and the assertion fails while the worker is still alive.
\<close>

definition get_batch_from_buffer :: "'a loader \<Rightarrow> error + ('a list \<times> 'a loader)" where
  "get_batch_from_buffer s =
     (case buffer s of
        None \<Rightarrow> Inl TypeError
      | Some (batch, offset) \<Rightarrow>
          if buffer_thread s = Some Alive then Inl AssertionError
          else Inr (batch, reload_buffer (s\<lparr>dataset_offset := offset\<rparr>)))"

text \<open>
  The loop \<^verbatim>\<open>for _ in range(self.batch_size)\<close> of the sequential branch: before each
  sample the dataset is reloaded when the cursor is at or past the end of the file.
\<close>

fun fetch_samples ::
  "(string \<Rightarrow> error + 'a list) \<Rightarrow> nat \<Rightarrow> 'a loader \<Rightarrow> 'a option list
     \<Rightarrow> error + ('a option list \<times> 'a loader)" where
  "fetch_samples rd 0 s samples = Inr (samples, s)"
| "fetch_samples rd (Suc n) s samples =
     (case (if dataset_offset s \<ge> len (train_dataset s) then reload_dataset rd s else Inr s) of
        Inl e \<Rightarrow> Inl e
      | Inr s' \<Rightarrow>
          fetch_samples rd n (s'\<lparr>dataset_offset := dataset_offset s' + 1\<rparr>)
            (samples @ [getitem (train_dataset s') (dataset_offset s')]))"

text \<open>
  The sequential branch of \<^verbatim>\<open>get_batch\<close> without the buffer: a whole window when it fits
  into the loaded file, sample by sample otherwise; then \<^verbatim>\<open>reload_buffer\<close> and the
  collation.
\<close>

definition get_batch_sync ::
  "(string \<Rightarrow> error + 'a list) \<Rightarrow> 'a loader \<Rightarrow> error + ('a list \<times> 'a loader)" where
  "get_batch_sync rd s =
     (case (if dataset_offset s + batch_size s \<le> len (train_dataset s)
            then (case getitem_slice (train_dataset s) (dataset_offset s)
                         (dataset_offset s + batch_size s) of
                    Inl e \<Rightarrow> Inl e
                  | Inr samples \<Rightarrow>
                      Inr (samples, s\<lparr>dataset_offset := dataset_offset s + batch_size s\<rparr>))
            else fetch_samples rd (batch_size s) s []) of
        Inl e \<Rightarrow> Inl e
      | Inr (samples, s') \<Rightarrow>
          (let s'' = reload_buffer s' in
           case prepare_samples samples of
             Inl e \<Rightarrow> Inl e
           | Inr batch \<Rightarrow> Inr (batch, s'')))"

text \<open>
  The random branch: \<^verbatim>\<open>torch.randint(len(dataset), (self.batch_size,))\<close> raises a
  RuntimeError on an empty range. The indices drawn are the parameter \<open>idx_batch\<close>.
\<close>

definition get_batch_random ::
  "'a dataset \<Rightarrow> nat list \<Rightarrow> 'a loader \<Rightarrow> error + ('a list \<times> 'a loader)" where
  "get_batch_random ds idx_batch s =
     (if len ds = 0 then Inl RuntimeError
      else
        (case prepare_samples (map (getitem ds) idx_batch) of
           Inl e \<Rightarrow> Inl e
         | Inr batch \<Rightarrow> Inr (batch, s)))"

text \<open>\<^verbatim>\<open>get_batch(split, random_samples)\<close>.\<close>

definition get_batch ::
  "(string \<Rightarrow> error + 'a list) \<Rightarrow> string \<Rightarrow> bool \<Rightarrow> nat list \<Rightarrow> 'a loader
     \<Rightarrow> error + ('a list \<times> 'a loader)" where
  "get_batch rd split random_samples idx_batch s =
     (let ds = (if split = ''train'' \<or> val_dataset s = None then train_dataset s
                else the (val_dataset s)) in
      if random_samples = False \<and> split = ''train'' \<and> dataset_seq_train s then
        (if dataset_buffer s \<and> buffer s \<noteq> None then get_batch_from_buffer s
         else get_batch_sync rd s)
      else get_batch_random ds idx_batch s)"

text \<open>\<open>n\<close> successive calls \<^verbatim>\<open>get_batch('train')\<close>, with the batches they return.\<close>

fun train_batches ::
  "(string \<Rightarrow> error + 'a list) \<Rightarrow> nat \<Rightarrow> 'a loader \<Rightarrow> error + ('a list list \<times> 'a loader)" where
  "train_batches rd 0 s = Inr ([], s)"
| "train_batches rd (Suc n) s =
     (case train_batches rd n s of
        Inl e \<Rightarrow> Inl e
      | Inr (batches, s') \<Rightarrow>
          (case get_batch rd ''train'' False [] s' of
             Inl e \<Rightarrow> Inl e
           | Inr (batch, s'') \<Rightarrow> Inr (batches @ [batch], s'')))"

text \<open>What the trainer sees of such a run: the batches, and \<^verbatim>\<open>data_loader.epoch\<close> after it.\<close>

definition batches_of ::
  "(string \<Rightarrow> error + 'a list) \<Rightarrow> nat \<Rightarrow> 'a loader \<Rightarrow> 'a list list option" where
  "batches_of rd n s =
     (case train_batches rd n s of Inl e \<Rightarrow> None | Inr (batches, s') \<Rightarrow> Some batches)"

definition epoch_after ::
  "(string \<Rightarrow> error + 'a list) \<Rightarrow> nat \<Rightarrow> 'a loader \<Rightarrow> nat option" where
  "epoch_after rd n s =
     (case train_batches rd n s of Inl e \<Rightarrow> None | Inr (batches, s') \<Rightarrow> Some (epoch s'))"

text \<open>
  A small file system for the concrete scenarios below: \<^verbatim>\<open>a.bin\<close> yields two samples for
  this rank, \<^verbatim>\<open>b.bin\<close> three, and every other file is too short and is skipped.
\<close>

definition corpus :: "string \<Rightarrow> error + nat list" where
  "corpus f =
     (if f = ''a.bin'' then Inr [10, 11]
      else if f = ''b.bin'' then Inr [20, 21, 22]
      else Inr [])"

section \<open>Checkpoints (train.py, AllamoTrainer)\<close>

text \<open>
  The fields of the saved configuration checkpoint that belong to the loader; a key that
  is absent from the checkpoint is \<open>None\<close>.
\<close>

record checkpoint =
  allamo_dataloader_train_processed_files :: "string list option"
  allamo_dataloader_dataset_offset :: "nat option"
  allamo_dataloader_epoch :: "nat option"

text \<open>\<^verbatim>\<open>save_checkpoint\<close> stores the ledger, the offset and the epoch of the loader.\<close>

definition save_checkpoint :: "'a loader \<Rightarrow> checkpoint" where
  "save_checkpoint s =
     \<lparr>allamo_dataloader_train_processed_files = Some (processed_files (train_dataset s)),
      allamo_dataloader_dataset_offset = Some (dataset_offset s),
      allamo_dataloader_epoch = Some (epoch s)\<rparr>"

text \<open>
  The resume branch of the trainer's constructor: the ledger is taken from the
  checkpoint, its last entry is popped and the next file is loaded (the result of
  \<^verbatim>\<open>load_next_dataset\<close> is not looked at), then offset and epoch are taken over.
\<close>

definition resume ::
  "(string \<Rightarrow> error + 'a list) \<Rightarrow> checkpoint \<Rightarrow> 'a loader \<Rightarrow> error + 'a loader" where
  "resume rd ckpt s =
     (case (case allamo_dataloader_train_processed_files ckpt of
              None \<Rightarrow> Inr s
            | Some ledger \<Rightarrow>
                (let ds = (train_dataset s)\<lparr>processed_files := ledger\<rparr> in
                 if length ledger > 0 then
                   (case load_next_dataset rd (ds\<lparr>processed_files := butlast ledger\<rparr>) of
                      Inl e \<Rightarrow> Inl e
                    | Inr (_, ds') \<Rightarrow> Inr (s\<lparr>train_dataset := ds'\<rparr>))
                 else Inr (s\<lparr>train_dataset := ds\<rparr>))) of
        Inl e \<Rightarrow> Inl e
      | Inr s1 \<Rightarrow>
          (let s2 = (case allamo_dataloader_dataset_offset ckpt of
                       None \<Rightarrow> s1 | Some off \<Rightarrow> s1\<lparr>dataset_offset := off\<rparr>) in
           Inr (case allamo_dataloader_epoch ckpt of
                  None \<Rightarrow> s2 | Some e \<Rightarrow> s2\<lparr>epoch := e\<rparr>)))"



section \<open>The file catalog (data\_loader.py, AllamoDataset.get\_dataset\_files)\<close>

text \<open>
  The configuration values that the catalog reads. The three values tested for
  truthiness are optional strings: \<open>None\<close> and the empty string are both falsy.
\<close>

record config =
  data_dir :: string
  dataset :: "string option"
  dataset_train_files :: "string option"
  dataset_validation_files :: "string option"
  dataset_train_file_prefix :: string
  dataset_validation_file_prefix :: string

definition truthy :: "string option \<Rightarrow> bool" where
  "truthy v = (case v of None \<Rightarrow> False | Some str \<Rightarrow> str \<noteq> [])"

text \<open>
  \<^verbatim>\<open>str.split(sep)\<close> for a separator of one character: every occurrence splits, and empty
  pieces are kept. The piece list of the recursive call is never empty.
\<close>

fun split_on :: "char \<Rightarrow> string \<Rightarrow> string list" where
  "split_on sep [] = [[]]"
| "split_on sep (c # cs) =
     (if c = sep then [] # split_on sep cs
      else (case split_on sep cs of
              [] \<Rightarrow> [[c]]
            | piece # pieces \<Rightarrow> (c # piece) # pieces))"

text \<open>\<^verbatim>\<open>str.startswith\<close>, \<^verbatim>\<open>str.endswith\<close>, and \<^verbatim>\<open>os.path.join\<close>, \<^verbatim>\<open>os.path.basename\<close> on POSIX.\<close>

definition startswith :: "string \<Rightarrow> string \<Rightarrow> bool" where
  "startswith str pre = (take (length pre) str = pre)"

definition endswith :: "string \<Rightarrow> string \<Rightarrow> bool" where
  "endswith str suf = startswith (rev str) (rev suf)"

definition path_join :: "string \<Rightarrow> string \<Rightarrow> string" where
  "path_join a b =
     (if startswith b ''/'' then b
      else if a = [] \<or> endswith a ''/'' then a @ b
      else a @ ''/'' @ b)"

definition basename :: "string \<Rightarrow> string" where
  "basename path = rev (takeWhile (\<lambda>c. c \<noteq> CHR ''/'') (rev path))"

definition is_file_type_supported :: "string \<Rightarrow> bool" where
  "is_file_type_supported dataset_file =
     (endswith dataset_file ''.bin'' \<or> endswith dataset_file ''.pt''
      \<or> endswith dataset_file ''.alm'')"

text \<open>
  The first half of \<^verbatim>\<open>get_dataset_files\<close>: the names the split resolves to, before
  sorting. \<^verbatim>\<open>glob.glob\<close> reads the file system and is the parameter \<open>glob\<close>, from a
  pattern to the paths that match it.
\<close>

definition resolve_dataset_files :: "(string \<Rightarrow> string list) \<Rightarrow> config \<Rightarrow> bool \<Rightarrow> string list" where
  "resolve_dataset_files glob cfg train_split =
     (if train_split \<and> truthy (dataset_train_files cfg)
      then split_on CHR '','' (the (dataset_train_files cfg))
      else if \<not> train_split \<and> truthy (dataset_validation_files cfg)
      then split_on CHR '','' (the (dataset_validation_files cfg))
      else if truthy (dataset cfg) then
        (let dataset_dir = path_join (data_dir cfg) (the (dataset cfg));
             prefix = (if train_split then dataset_train_file_prefix cfg
                       else dataset_validation_file_prefix cfg)
         in filter (\<lambda>dataset_file. is_file_type_supported dataset_file
                      \<and> startswith (basename dataset_file) prefix)
              (glob (path_join dataset_dir ''*.*'')))
      else [])"

text \<open>
  The second half: \<^verbatim>\<open>sorted\<close> on strings is the lexicographic order of the code points,
  which is the order of \<open>string\<close> here.
\<close>

definition get_dataset_files :: "(string \<Rightarrow> string list) \<Rightarrow> config \<Rightarrow> bool \<Rightarrow> error + string list" where
  "get_dataset_files glob cfg train_split =
     (let dataset_files = resolve_dataset_files glob cfg train_split in
      if dataset_files \<noteq> [] then Inr (sort dataset_files)
      else if train_split then Inl TrainingFilesNotFound
      else Inr [])"

text \<open>A directory listing and two configurations for the concrete scenarios below.\<close>

definition listing :: "string \<Rightarrow> string list" where
  "listing pattern =
     (if pattern = ''data/corpus/*.*''
      then [''data/corpus/train_b.bin'', ''data/corpus/val_a.bin'', ''data/corpus/train_a.pt'',
            ''data/corpus/train_notes.txt'']
      else [])"

definition directory_config :: config where
  "directory_config =
     \<lparr>data_dir = ''data'', dataset = Some ''corpus'', dataset_train_files = None,
      dataset_validation_files = None, dataset_train_file_prefix = ''train_'',
      dataset_validation_file_prefix = ''test_''\<rparr>"

definition repeated_config :: config where
  "repeated_config =
     \<lparr>data_dir = ''data'', dataset = None, dataset_train_files = Some ''b.bin,a.bin,a.bin'',
      dataset_validation_files = None, dataset_train_file_prefix = ''train_'',
      dataset_validation_file_prefix = ''val_''\<rparr>"

section \<open>Materialization of structured samples (data\_loader.py, AllamoDataset)\<close>

text \<open>
  A structured sample is a Python dict with optional keys; a key that is absent is
  \<open>None\<close>. The same shape serves for the stored sample and for the materialized one
  (which never has \<^verbatim>\<open>seq_lens\<close>). Token ids and weights are integers: the code does no
  arithmetic on them, it only compares targets with the ignore sentinel and appends
  constants. A mask is the list of its rows.
\<close>

record sample =
  input_ids :: "int list option"
  target_ids :: "int list option"
  target_weights :: "int list option"
  seq_lens :: "nat list option"
  input_pos :: "nat list option"
  attn_mask :: "bool list list option"

text \<open>The fields of the dataset that materialization reads.\<close>

record params =
  block_size :: nat
  ignore_index :: int
  pad_token_id :: int
  weighted_loss :: bool

text \<open>\<^verbatim>\<open>self.sample_size = config.block_size + 1\<close>\<close>

definition sample_size :: "params \<Rightarrow> nat" where
  "sample_size p = block_size p + 1"

text \<open>\<^verbatim>\<open>torch.where(target_ids == self.ignore_index, 0, 1)\<close>\<close>

definition weights_of_targets :: "params \<Rightarrow> int list \<Rightarrow> int list" where
  "weights_of_targets p targets = map (\<lambda>t. if t = ignore_index p then 0 else 1) targets"

text \<open>
  \<^verbatim>\<open>F.pad(x, (0, n - len(x)), value=v)\<close> under the guard \<^verbatim>\<open>len(x) < n\<close>: pad on the right
  up to length \<open>n\<close>; a tensor that is not shorter is left as it is.
\<close>

definition pad_to :: "nat \<Rightarrow> int \<Rightarrow> int list \<Rightarrow> int list" where
  "pad_to n v xs = (if length xs < n then xs @ replicate (n - length xs) v else xs)"

text \<open>
  \<^verbatim>\<open>torch.tril(torch.ones(n, n, dtype=torch.bool))\<close>, \<^verbatim>\<open>torch.eye(n, n, dtype=torch.bool)\<close> and
  \<^verbatim>\<open>torch.block_diag\<close> of matrices: each block keeps its rows, filled with \<open>False\<close> to the
  left and to the right.
\<close>

definition tril_ones :: "nat \<Rightarrow> bool list list" where
  "tril_ones n = map (\<lambda>i. map (\<lambda>j. j \<le> i) [0..<n]) [0..<n]"

definition eye :: "nat \<Rightarrow> bool list list" where
  "eye n = map (\<lambda>i. map (\<lambda>j. i = j) [0..<n]) [0..<n]"

definition ncols :: "bool list list \<Rightarrow> nat" where
  "ncols m = (case m of [] \<Rightarrow> 0 | row # rows \<Rightarrow> length row)"

fun block_diag :: "bool list list list \<Rightarrow> bool list list" where
  "block_diag [] = []"
| "block_diag (m # ms) =
     map (\<lambda>row. row @ replicate (ncols (block_diag ms)) False) m
     @ map (\<lambda>row. replicate (ncols m) False @ row) (block_diag ms)"

text \<open>
  The loop \<^verbatim>\<open>for seq_len in sample["seq_lens"]\<close> with its three accumulators
  \<^verbatim>\<open>total_seq_len\<close>, \<^verbatim>\<open>block_attn_masks\<close> and \<^verbatim>\<open>sample_input_pos\<close>.
\<close>

fun seq_lens_loop ::
  "nat list \<Rightarrow> nat \<times> bool list list list \<times> nat list \<Rightarrow> nat \<times> bool list list list \<times> nat list" where
  "seq_lens_loop [] acc = acc"
| "seq_lens_loop (seq_len # rest) (total_seq_len, block_attn_masks, sample_input_pos) =
     seq_lens_loop rest
       (total_seq_len + seq_len,
        block_attn_masks @ [tril_ones seq_len],
        sample_input_pos @ [0..<seq_len])"

text \<open>
  \<^verbatim>\<open>prepare_alm_sample\<close> for a training type other than \<^verbatim>\<open>dpo\<close>. Reading the key
  \<^verbatim>\<open>input_ids\<close> or \<^verbatim>\<open>target_ids\<close> of a sample that lacks it is a KeyError, and
  \<^verbatim>\<open>sample_input_pos[-1]\<close> on an empty list is an IndexError.
\<close>

definition prepare_alm_sample :: "params \<Rightarrow> sample \<Rightarrow> error + sample" where
  "prepare_alm_sample p smp =
     (case input_ids smp of
        None \<Rightarrow> Inl KeyError
      | Some inp \<Rightarrow>
     (case target_ids smp of
        None \<Rightarrow> Inl KeyError
      | Some tgt \<Rightarrow>
     (let weights =
            (if weighted_loss p then
               (case target_weights smp of
                  Some w \<Rightarrow> Some w
                | None \<Rightarrow> Some (weights_of_targets p tgt))
             else None);
          result =
            (if pad_token_id p \<ge> 0 then
               \<lparr>input_ids = Some (pad_to (block_size p) (pad_token_id p) inp),
                target_ids = Some (pad_to (block_size p) (ignore_index p) tgt),
                target_weights = map_option (pad_to (block_size p) 0) weights,
                seq_lens = None, input_pos = None, attn_mask = None\<rparr>
             else
               \<lparr>input_ids = Some inp, target_ids = Some tgt, target_weights = weights,
                seq_lens = None, input_pos = None, attn_mask = None\<rparr>)
      in case seq_lens smp of
           None \<Rightarrow> Inr result
         | Some lens \<Rightarrow>
             (case seq_lens_loop lens (0, [], []) of
                (total_seq_len, block_attn_masks, sample_input_pos) \<Rightarrow>
                  if total_seq_len < length (the (input_ids result)) then
                    (if sample_input_pos = [] then Inl IndexError
                     else
                       (let new_pos = last sample_input_pos + 1;
                            num_pad = length (the (input_ids result)) - total_seq_len
                        in Inr (result
                             \<lparr>input_pos := Some (sample_input_pos @ [new_pos..<new_pos + num_pad]),
                              attn_mask := Some (block_diag (block_attn_masks @ [eye num_pad]))\<rparr>)))
                  else Inr (result
                         \<lparr>input_pos := Some sample_input_pos,
                          attn_mask := Some (block_diag block_attn_masks)\<rparr>)))))"

text \<open>
  An element of a list loaded from a \<^verbatim>\<open>.pt\<close> file is a dict or a plain token tensor.
\<close>

datatype item = Dict sample | Tensor "int list"

text \<open>
  The truncate-or-pad step of \<^verbatim>\<open>pad_or_truncate_to_block_size\<close> on one field, with the
  value \<open>v\<close> that the code appends:
  \<^verbatim>\<open>if len(x) >= self.sample_size: x = x[:self.sample_size-1]\<close>
  \<^verbatim>\<open>elif self.pad_token_id >= 0 and len(x) < self.sample_size-1: x = cat(x, full(padding, v))\<close>
\<close>

definition truncate_or_pad :: "params \<Rightarrow> int \<Rightarrow> int list \<Rightarrow> int list" where
  "truncate_or_pad p v xs =
     (if length xs \<ge> sample_size p then take (sample_size p - 1) xs
      else if pad_token_id p \<ge> 0 \<and> length xs < sample_size p - 1
      then xs @ replicate (sample_size p - 1 - length xs) v
      else xs)"

text \<open>
  The body of the loop of \<^verbatim>\<open>pad_or_truncate_to_block_size\<close> for one element. In the dict
  branch the value appended to \<^verbatim>\<open>input_ids\<close> is \<^verbatim>\<open>self.ignore_index\<close>, as in the source.
\<close>

definition pad_or_truncate_item :: "params \<Rightarrow> item \<Rightarrow> error + item" where
  "pad_or_truncate_item p it =
     (case it of
        Dict smp \<Rightarrow>
          (case input_ids smp of
             None \<Rightarrow> Inl InputIdsNotFound
           | Some inp \<Rightarrow>
               (let tgt = (case target_ids smp of None \<Rightarrow> drop 1 inp | Some t \<Rightarrow> t);
                    weights =
                      (if weighted_loss p then
                         (case target_weights smp of
                            None \<Rightarrow> Some (weights_of_targets p tgt)
                          | Some w \<Rightarrow> Some w)
                       else None);
                    inp' = truncate_or_pad p (ignore_index p) inp;
                    tgt' = truncate_or_pad p (ignore_index p) tgt;
                    weights' = map_option (truncate_or_pad p 0) weights
                in if length inp' \<noteq> length tgt' then Inl AssertionError
                   else if weighted_loss p \<and> length inp' \<noteq> length (the weights')
                   then Inl AssertionError
                   else Inr (Dict (smp\<lparr>input_ids := Some inp', target_ids := Some tgt',
                                        target_weights := weights'\<rparr>))))
      | Tensor xs \<Rightarrow>
          (let xs1 = (if length xs > sample_size p then take (sample_size p) xs else xs) in
           if pad_token_id p \<ge> 0 then
             (let xs2 = (if length xs1 < sample_size p
                         then xs1 @ replicate (sample_size p - length xs1) (ignore_index p)
                         else xs1);
                  inp = butlast xs2;
                  tgt = drop 1 xs2
              in Inr (Dict \<lparr>input_ids = Some (map (\<lambda>t. if t = ignore_index p then pad_token_id p else t) inp),
                            target_ids = Some tgt,
                            target_weights = Some (weights_of_targets p tgt),
                            seq_lens = None, input_pos = None, attn_mask = None\<rparr>))
           else Inr (Tensor xs1)))"

text \<open>
  The whole loop: the list is rewritten element by element and the first exception
  ends it.
\<close>

fun pad_or_truncate_to_block_size :: "params \<Rightarrow> item list \<Rightarrow> error + item list" where
  "pad_or_truncate_to_block_size p [] = Inr []"
| "pad_or_truncate_to_block_size p (it # rest) =
     (case pad_or_truncate_item p it of
        Inl e \<Rightarrow> Inl e
      | Inr it' \<Rightarrow>
          (case pad_or_truncate_to_block_size p rest of
             Inl e \<Rightarrow> Inl e
           | Inr rest' \<Rightarrow> Inr (it' # rest')))"

text \<open>
  For the concrete scenarios below: a dataset with block size 4, the usual ignore
  sentinel, pad token 0 and weighted loss, and a stored sample with the two required
  keys and the two optional ones.
\<close>

definition example_params :: params where
  "example_params = \<lparr>block_size = 4, ignore_index = - 100, pad_token_id = 0, weighted_loss = True\<rparr>"

definition stored_sample ::
  "int list \<Rightarrow> int list \<Rightarrow> int list option \<Rightarrow> nat list option \<Rightarrow> sample" where
  "stored_sample inp tgt weights lens =
     \<lparr>input_ids = Some inp, target_ids = Some tgt, target_weights = weights, seq_lens = lens,
      input_pos = None, attn_mask = None\<rparr>"

section \<open>Proofs: rank sharding\<close>

lemma slice_count_step:
  assumes "0 < step" "start < n"
  shows "((n::nat) - start + step - 1) div step = Suc ((n - (start + step) + step - 1) div step)"
proof (cases "start + step \<le> n")
  case True
  then obtain m where n: "n = start + step + m" using le_Suc_ex by blast
  have "n - start + step - 1 = (m + step - 1) + step" unfolding n using assms(1) by linarith
  moreover have "n - (start + step) + step - 1 = m + step - 1" unfolding n by simp
  moreover have "((m + step - 1) + step) div step = (m + step - 1) div step + 1"
    by (rule div_add_self2) (use assms(1) in simp)
  ultimately show ?thesis by (simp only: Suc_eq_plus1)
next
  case False
  define d where "d = n - start - 1"
  have d: "n = start + Suc d" "d < step" using False assms(2) unfolding d_def by linarith+
  have "n - start + step - 1 = d + step" unfolding d using assms(1) by linarith
  moreover have "n - (start + step) + step - 1 = step - 1" using False by linarith
  moreover have "(d + step) div step = Suc 0"
    using div_add_self2 [of step d] d(2) assms(1) by simp
  moreover have "(step - 1) div step = 0" using assms(1) by simp
  ultimately show ?thesis by (simp only:)
qed

lemma count_multiple:
  assumes "r < ws"
  shows "(n * ws - r + ws - 1) div ws = (n::nat)"
proof (cases n)
  case 0
  then show ?thesis using assms by simp
next
  case (Suc m)
  then have "r \<le> n * ws" using assms by simp
  then have "n * ws - r + ws - 1 = (ws - 1 - r) + n * ws" using assms by linarith
  moreover have "(n * ws + (ws - 1 - r)) div ws = n + (ws - 1 - r) div ws"
    by (rule div_mult_self3) (use assms in simp)
  moreover have "(ws - 1 - r) div ws = 0" using assms by simp
  ultimately show ?thesis by (simp only: add.commute [of "ws - 1 - r"] add_0_right)
qed

lemma slice_from_step_closed:
  "0 < step \<Longrightarrow> slice_from_step start step xs =
     map (\<lambda>k. xs ! (start + k * step)) [0..<(length xs - start + step - 1) div step]"
proof (induction start step xs rule: slice_from_step.induct)
  case (1 start step xs)
  show ?case
  proof (cases "length xs \<le> start")
    case True
    then show ?thesis using "1.prems" by (simp add: slice_from_step.simps)
  next
    case False
    then have lt: "start < length xs" by simp
    have ih: "slice_from_step (start + step) step xs =
       map (\<lambda>k. xs ! (start + step + k * step)) [0..<(length xs - (start + step) + step - 1) div step]"
      using "1.IH" "1.prems" False by simp
    have "slice_from_step start step xs = xs ! start # slice_from_step (start + step) step xs"
      using False "1.prems" by (subst slice_from_step.simps) simp
    also have "\<dots> = map (\<lambda>k. xs ! (start + k * step)) [0..<Suc ((length xs - (start + step) + step - 1) div step)]"
      unfolding ih by (simp add: map_upt_Suc add.assoc del: upt_Suc)
    finally show ?thesis by (simp only: slice_count_step [OF "1.prems" lt])
  qed
qed

lemma limit_samples_to_rank_closed:
  assumes "r < ws" "length xs = n * ws"
  shows "limit_samples_to_rank r ws xs = map (\<lambda>k. xs ! (r + k * ws)) [0..<n]"
proof (cases "1 < ws")
  case True
  then have "0 < ws" by simp
  from slice_from_step_closed [OF this, of r xs]
  show ?thesis using True by (simp only: limit_samples_to_rank_def if_True assms(2) count_multiple [OF assms(1)])
next
  case False
  then have "ws = 1" "r = 0" using assms(1) by simp_all
  then show ?thesis using assms(2) map_nth [of xs] by (simp add: limit_samples_to_rank_def)
qed

lemma mset_map_as_sum_list: "mset (map f ks) = sum_list (map (\<lambda>k. {#f k#}) ks)"
  by (induction ks) simp_all

lemma sum_list_mset_shards:
  "length xs = n * ws \<Longrightarrow>
   sum_list (map (\<lambda>r. mset (map (\<lambda>k. xs ! (r + k * ws)) [0..<n])) [0..<ws]) = mset xs"
proof (induction n arbitrary: xs)
  case 0
  then show ?case by (simp add: sum_list_replicate flip: replicate_length_same)
next
  case (Suc n)
  let ?ys = "drop ws xs"
  have len: "length ?ys = n * ws" using Suc.prems by simp
  have ws_le: "ws \<le> length xs" using Suc.prems by simp
  have shard: "map (\<lambda>k. xs ! (r + k * ws)) [0..<Suc n] = xs ! r # map (\<lambda>k. ?ys ! (r + k * ws)) [0..<n]"
    if "r < ws" for r
  proof -
    have "map (\<lambda>k. xs ! (r + k * ws)) [0..<Suc n] = xs ! r # map (\<lambda>k. xs ! (r + Suc k * ws)) [0..<n]"
      by (simp add: map_upt_Suc del: upt_Suc)
    moreover have "xs ! (r + Suc k * ws) = ?ys ! (r + k * ws)" if "k < n" for k
    proof -
      have "ws + (r + k * ws) \<le> length xs"
      proof -
        have "Suc k \<le> n" using that by simp
        then have "Suc k * ws \<le> n * ws" by (rule mult_le_mono1)
        then show ?thesis using Suc.prems \<open>r < ws\<close> by simp
      qed
      then show ?thesis using nth_drop [of ws xs "r + k * ws"] ws_le by (simp add: add.commute add.left_commute)
    qed
    ultimately show ?thesis by simp
  qed
  have "sum_list (map (\<lambda>r. mset (map (\<lambda>k. xs ! (r + k * ws)) [0..<Suc n])) [0..<ws])
      = sum_list (map (\<lambda>r. {#xs ! r#} + mset (map (\<lambda>k. ?ys ! (r + k * ws)) [0..<n])) [0..<ws])"
  proof -
    have "mset (map (\<lambda>k. xs ! (r + k * ws)) [0..<Suc n])
        = {#xs ! r#} + mset (map (\<lambda>k. ?ys ! (r + k * ws)) [0..<n])" if "r \<in> set [0..<ws]" for r
    proof -
      have "r < ws" using that by simp
      then show ?thesis by (simp only: shard) simp
    qed
    then show ?thesis by (intro arg_cong [where f = sum_list] map_cong refl)
  qed
  also have "\<dots> = sum_list (map (\<lambda>r. {#xs ! r#}) [0..<ws])
                 + sum_list (map (\<lambda>r. mset (map (\<lambda>k. ?ys ! (r + k * ws)) [0..<n])) [0..<ws])"
    by (simp only: sum_list_addf)
  also have "sum_list (map (\<lambda>r. {#xs ! r#}) [0..<ws]) = mset (take ws xs)"
  proof -
    have "map ((!) xs) [0..<ws] = take ws xs"
      using ws_le by (intro nth_equalityI) simp_all
    then show ?thesis using mset_map_as_sum_list [of "(!) xs" "[0..<ws]"] by (simp only:)
  qed
  also have "sum_list (map (\<lambda>r. mset (map (\<lambda>k. ?ys ! (r + k * ws)) [0..<n])) [0..<ws]) = mset ?ys"
    by (rule Suc.IH [OF len])
  also have "mset (take ws xs) + mset ?ys = mset xs"
    by (simp flip: mset_append)
  finally show ?case .
qed

lemma kept_indices:
  assumes "r < ws" "N = n * ws"
  shows "limit_samples_to_rank r ws [0..<N] = map (\<lambda>k. r + k * ws) [0..<n]"
proof -
  have "r + k * ws < N" if "k < n" for k
  proof -
    have "Suc k * ws \<le> n * ws" using that by (intro mult_le_mono1) simp
    then show ?thesis using assms by simp
  qed
  then have "map (\<lambda>k. [0..<N] ! (r + k * ws)) [0..<n] = map (\<lambda>k. r + k * ws) [0..<n]"
    by (intro map_cong refl) simp
  then show ?thesis
    using limit_samples_to_rank_closed [OF assms(1), of "[0..<N]" n] assms(2) by simp
qed

lemma strided_disjoint:
  assumes "r < ws" "r' < ws" "r \<noteq> r'"
  shows "set (map (\<lambda>k. r + k * ws) [0..<n]) \<inter> set (map (\<lambda>k. r' + k * (ws::nat)) [0..<n]) = {}"
proof -
  have False if "r + k * ws = r' + k' * ws" for k k'
  proof -
    have "(r + k * ws) mod ws = (r' + k' * ws) mod ws" using that by simp
    then show False using assms by simp
  qed
  then show ?thesis by auto
qed

lemma strided_sorted: "0 < ws \<Longrightarrow> sorted_wrt (<) (map (\<lambda>k. r + k * (ws::nat)) [0..<n])"
  by (simp add: sorted_wrt_map sorted_wrt_iff_nth_less)

text \<open>
  Claim C1. For a world size of at least one and a sample list whose length is a multiple
  of the world size, the shard of rank \<open>r\<close> holds exactly the samples at the indices
  \<open>r\<close>, \<open>r + world_size\<close>, \<open>r + 2 * world_size\<close>, ... The indices kept by a rank are what
  the function returns on the identity list \<open>[0..<length xs]\<close>: for two different ranks they
  are disjoint, for each rank they are strictly increasing (the order of the samples is
  kept), and the shards of all ranks together hold every sample exactly once (as a
  multiset they add up to the sample list).
\<close>

theorem C1_rank_sharding_partition:
  assumes "1 \<le> ws" and "length xs = n * ws"
  shows "(\<forall>r<ws. limit_samples_to_rank r ws xs = map (\<lambda>k. xs ! (r + k * ws)) [0..<n])
       \<and> (\<forall>r<ws. limit_samples_to_rank r ws [0..<length xs] = map (\<lambda>k. r + k * ws) [0..<n])
       \<and> (\<forall>r<ws. \<forall>r'<ws. r \<noteq> r' \<longrightarrow>
             set (limit_samples_to_rank r ws [0..<length xs])
               \<inter> set (limit_samples_to_rank r' ws [0..<length xs]) = {})
       \<and> (\<forall>r<ws. sorted_wrt (<) (limit_samples_to_rank r ws [0..<length xs]))
       \<and> sum_list (map (\<lambda>r. mset (limit_samples_to_rank r ws xs)) [0..<ws]) = mset xs"
proof (intro conjI allI impI)
  fix r assume "r < ws"
  then show "limit_samples_to_rank r ws xs = map (\<lambda>k. xs ! (r + k * ws)) [0..<n]"
    by (rule limit_samples_to_rank_closed) (rule assms(2))
  from \<open>r < ws\<close> show "limit_samples_to_rank r ws [0..<length xs] = map (\<lambda>k. r + k * ws) [0..<n]"
    by (rule kept_indices) (rule assms(2))
  from \<open>r < ws\<close> assms(1) show "sorted_wrt (<) (limit_samples_to_rank r ws [0..<length xs])"
    by (simp only: kept_indices [OF _ assms(2)]) (simp add: strided_sorted)
next
  fix r r' assume rr: "r < ws" "r' < ws" "r \<noteq> r'"
  show "set (limit_samples_to_rank r ws [0..<length xs])
               \<inter> set (limit_samples_to_rank r' ws [0..<length xs]) = {}"
    unfolding kept_indices [OF rr(1) assms(2)] kept_indices [OF rr(2) assms(2)]
    by (rule strided_disjoint [OF rr])
next
  have "map (\<lambda>r. mset (limit_samples_to_rank r ws xs)) [0..<ws]
      = map (\<lambda>r. mset (map (\<lambda>k. xs ! (r + k * ws)) [0..<n])) [0..<ws]"
    by (intro map_cong refl) (simp add: limit_samples_to_rank_closed [OF _ assms(2)])
  then show "sum_list (map (\<lambda>r. mset (limit_samples_to_rank r ws xs)) [0..<ws]) = mset xs"
    by (simp only: sum_list_mset_shards [OF assms(2)])
qed

theorem C1_rank_sharding_partition_witness:
  "limit_samples_to_rank 0 2 [10, 11, 12, 13 :: nat] = [10, 12]
   \<and> limit_samples_to_rank 1 2 [10, 11, 12, 13 :: nat] = [11, 13]
   \<and> mset (limit_samples_to_rank 0 2 [10, 11, 12, 13 :: nat])
       + mset (limit_samples_to_rank 1 2 [10, 11, 12, 13 :: nat]) = mset [10, 11, 12, 13]"
proof -
  have h1: "(1::nat) \<le> 2" by simp
  have h2: "length [10, 11, 12, 13 :: nat] = 2 * 2" by simp
  have u: "[0..<2] = [0, Suc 0]" by (simp add: upt_rec)
  note t = C1_rank_sharding_partition [OF h1 h2]
  have a: "\<forall>r<2. limit_samples_to_rank r 2 [10, 11, 12, 13 :: nat]
             = map (\<lambda>k. [10, 11, 12, 13] ! (r + k * 2)) [0..<2]" using t by blast
  have b: "sum_list (map (\<lambda>r. mset (limit_samples_to_rank r 2 [10, 11, 12, 13 :: nat])) [0..<2])
             = mset [10, 11, 12, 13]" using t by blast
  have "limit_samples_to_rank 0 2 [10, 11, 12, 13 :: nat] = [10, 12]"
    using a [rule_format, of 0] by (simp add: u)
  moreover have "limit_samples_to_rank 1 2 [10, 11, 12, 13 :: nat] = [11, 13]"
    using a [rule_format, of 1] by (simp add: u)
  moreover have "mset (limit_samples_to_rank 0 2 [10, 11, 12, 13 :: nat])
       + mset (limit_samples_to_rank 1 2 [10, 11, 12, 13 :: nat]) = mset [10, 11, 12, 13]"
    using b by (simp add: u)
  ultimately show ?thesis by blast
qed

section \<open>Proofs: loading files, resume and rollover\<close>

lemma load_dataset_file_usable:
  "rd f = Inr d \<Longrightarrow> d \<noteq> [] \<Longrightarrow>
   load_dataset_file rd f ds = Inr (True, ds\<lparr>processed_files := processed_files ds @ [f], data := Some d\<rparr>)"
  by (simp add: load_dataset_file_def)

lemma load_dataset_file_skipped:
  "rd f = Inr [] \<Longrightarrow>
   load_dataset_file rd f ds = Inr (False, ds\<lparr>processed_files := processed_files ds @ [f]\<rparr>)"
  by (simp add: load_dataset_file_def)

lemma load_dataset_file_cases:
  assumes "load_dataset_file rd f ds = Inr (loaded, ds')"
  shows "processed_files ds' = processed_files ds @ [f] \<and> dataset_files ds' = dataset_files ds
       \<and> (if loaded then \<exists>d. rd f = Inr d \<and> d \<noteq> [] \<and> data ds' = Some d
           else rd f = Inr [] \<and> data ds' = data ds)"
  using assms by (auto simp: load_dataset_file_def Let_def split: sum.splits if_splits)

lemma load_next_loop_first_unprocessed:
  assumes "set pre \<subseteq> set (processed_files ds)" "f \<notin> set (processed_files ds)"
    and "rd f = Inr d" "d \<noteq> []"
  shows "load_next_loop rd (pre @ f # post) ds
       = Inr (True, ds\<lparr>processed_files := processed_files ds @ [f], data := Some d\<rparr>)"
  using assms(1)
proof (induction pre)
  case Nil
  then show ?case using assms(2-) by (simp add: load_dataset_file_usable)
next
  case (Cons g pre)
  then show ?case by simp
qed

lemma load_next_loop_success:
  "load_next_loop rd fs ds = Inr (True, ds') \<Longrightarrow>
   \<exists>pre f post d. fs = pre @ f # post
      \<and> processed_files ds' \<noteq> [] \<and> last (processed_files ds') = f
      \<and> set pre \<subseteq> set (butlast (processed_files ds'))
      \<and> f \<notin> set (butlast (processed_files ds'))
      \<and> set (processed_files ds) \<subseteq> set (butlast (processed_files ds'))
      \<and> rd f = Inr d \<and> d \<noteq> [] \<and> data ds' = Some d
      \<and> dataset_files ds' = dataset_files ds"
proof (induction fs arbitrary: ds)
  case Nil
  then show ?case by simp
next
  case (Cons g fs)
  show ?case
  proof (cases "g \<in> set (processed_files ds)")
    case True
    then have "load_next_loop rd fs ds = Inr (True, ds')" using Cons.prems by simp
    from Cons.IH [OF this] obtain pre f post d where
      h: "fs = pre @ f # post" "processed_files ds' \<noteq> []" "last (processed_files ds') = f"
        "set pre \<subseteq> set (butlast (processed_files ds'))"
        "f \<notin> set (butlast (processed_files ds'))"
        "set (processed_files ds) \<subseteq> set (butlast (processed_files ds'))"
        "rd f = Inr d" "d \<noteq> []" "data ds' = Some d" "dataset_files ds' = dataset_files ds"
      by blast
    have "g # fs = (g # pre) @ f # post" using h(1) by simp
    moreover have "set (g # pre) \<subseteq> set (butlast (processed_files ds'))" using h(4,6) True by auto
    ultimately show ?thesis using h by blast
  next
    case False
    then obtain loaded ds1 where l: "load_dataset_file rd g ds = Inr (loaded, ds1)"
      using Cons.prems by (auto split: sum.splits)
    note c = load_dataset_file_cases [OF l]
    show ?thesis
    proof (cases loaded)
      case True
      then have "ds' = ds1" using Cons.prems False l by simp
      then obtain d where "rd g = Inr d" "d \<noteq> []" "data ds' = Some d"
        "processed_files ds' = processed_files ds @ [g]" "dataset_files ds' = dataset_files ds"
        using c True by auto
      then have "g # fs = [] @ g # fs \<and> processed_files ds' \<noteq> [] \<and> last (processed_files ds') = g
        \<and> set [] \<subseteq> set (butlast (processed_files ds'))
        \<and> g \<notin> set (butlast (processed_files ds'))
        \<and> set (processed_files ds) \<subseteq> set (butlast (processed_files ds'))
        \<and> rd g = Inr d \<and> d \<noteq> [] \<and> data ds' = Some d
        \<and> dataset_files ds' = dataset_files ds" using False by simp
      then show ?thesis by blast
    next
      case notloaded: False
      then have "load_next_loop rd fs ds1 = Inr (True, ds')" using Cons.prems False l by simp
      from Cons.IH [OF this] obtain pre f post d where
        h: "fs = pre @ f # post" "processed_files ds' \<noteq> []" "last (processed_files ds') = f"
          "set pre \<subseteq> set (butlast (processed_files ds'))"
          "f \<notin> set (butlast (processed_files ds'))"
          "set (processed_files ds1) \<subseteq> set (butlast (processed_files ds'))"
          "rd f = Inr d" "d \<noteq> []" "data ds' = Some d" "dataset_files ds' = dataset_files ds1"
        by blast
      have p1: "processed_files ds1 = processed_files ds @ [g]" "dataset_files ds1 = dataset_files ds"
        using c by simp_all
      have "g # fs = (g # pre) @ f # post" using h(1) by simp
      moreover have "set (g # pre) \<subseteq> set (butlast (processed_files ds'))" using h(4,6) p1 by auto
      moreover have "set (processed_files ds) \<subseteq> set (butlast (processed_files ds'))" using h(6) p1 by auto
      ultimately show ?thesis using h p1 by (metis (no_types, lifting))
    qed
  qed
qed

lemma load_next_dataset_success:
  assumes "load_next_dataset rd ds0 = Inr (True, ds)"
  shows "\<exists>pre f post d. dataset_files ds = pre @ f # post
      \<and> processed_files ds \<noteq> [] \<and> last (processed_files ds) = f
      \<and> set pre \<subseteq> set (butlast (processed_files ds))
      \<and> f \<notin> set (butlast (processed_files ds))
      \<and> rd f = Inr d \<and> d \<noteq> [] \<and> data ds = Some d"
proof -
  from load_next_loop_success [OF assms [unfolded load_next_dataset_def]]
  obtain pre f post d where h: "dataset_files ds0 = pre @ f # post"
      "processed_files ds \<noteq> []" "last (processed_files ds) = f"
      "set pre \<subseteq> set (butlast (processed_files ds))"
      "f \<notin> set (butlast (processed_files ds))"
      "rd f = Inr d" "d \<noteq> []" "data ds = Some d"
      "dataset_files ds = dataset_files (ds0\<lparr>data := None\<rparr>)"
    by blast
  then have "dataset_files ds = pre @ f # post" by simp
  with h show ?thesis by blast
qed

lemma find_first_unprocessed:
  "set pre \<subseteq> set L \<Longrightarrow> f \<notin> set L \<Longrightarrow> find (\<lambda>g. g \<notin> set L) (pre @ f # post) = Some f"
  by (induction pre) auto

text \<open>
Claim C2. Let the training dataset of the loader \<open>s\<close> be what a successful
  \<^verbatim>\<open>load_next_dataset\<close> left behind (this is how a file gets loaded: in the constructor,
  at a rollover and at a resume), and let \<open>s_new\<close> be the loader of the restarted process
  over the same catalog. Restoring the checkpoint saved from \<open>s\<close> succeeds; the last
  entry of the saved ledger is the first catalog file that is not in the shortened
  ledger; after the restore the ledger is the saved ledger again (its last entry was
  removed and appended again by the reload), the data loaded is the data of that same
  file, and the offset and the epoch are those of the checkpoint.
\<close>

theorem C2_resume_same_file_same_offset:
  assumes "load_next_dataset rd ds0 = Inr (True, train_dataset s)"
    and "dataset_files (train_dataset s_new) = dataset_files (train_dataset s)"
  shows "\<exists>s'. resume rd (save_checkpoint s) s_new = Inr s'
      \<and> find (\<lambda>f. f \<notin> set (butlast (processed_files (train_dataset s))))
           (dataset_files (train_dataset s)) = Some (last (processed_files (train_dataset s)))
      \<and> processed_files (train_dataset s') = processed_files (train_dataset s)
      \<and> data (train_dataset s') = data (train_dataset s)
      \<and> data (train_dataset s') \<noteq> None
      \<and> dataset_offset s' = dataset_offset s
      \<and> epoch s' = epoch s"
proof -
  let ?ds = "train_dataset s"
  let ?L = "processed_files ?ds"
  from load_next_dataset_success [OF assms(1)]
  obtain pre f post d where h: "dataset_files ?ds = pre @ f # post"
      "?L \<noteq> []" "last ?L = f" "set pre \<subseteq> set (butlast ?L)" "f \<notin> set (butlast ?L)"
      "rd f = Inr d" "d \<noteq> []" "data ?ds = Some d"
    by blast
  have L: "butlast ?L @ [f] = ?L" using h(2,3) by (metis append_butlast_last_id)
  let ?dn = "(train_dataset s_new)\<lparr>processed_files := ?L\<rparr>\<lparr>processed_files := butlast ?L\<rparr>"
  have "load_next_dataset rd ?dn
      = Inr (True, (?dn\<lparr>data := None\<rparr>)\<lparr>processed_files := processed_files (?dn\<lparr>data := None\<rparr>) @ [f], data := Some d\<rparr>)"
    unfolding load_next_dataset_def
    using load_next_loop_first_unprocessed [of pre "?dn\<lparr>data := None\<rparr>" f rd d post] h assms(2)
    by simp
  then have ln: "load_next_dataset rd ?dn
      = Inr (True, (train_dataset s_new)\<lparr>processed_files := ?L, data := Some d\<rparr>)"
    using L by simp
  have "resume rd (save_checkpoint s) s_new
      = Inr (s_new\<lparr>train_dataset := (train_dataset s_new)\<lparr>processed_files := ?L, data := Some d\<rparr>,
                   dataset_offset := dataset_offset s, epoch := epoch s\<rparr>)"
    using h(2) ln by (simp add: resume_def save_checkpoint_def Let_def)
  moreover have "find (\<lambda>g. g \<notin> set (butlast ?L)) (dataset_files ?ds) = Some (last ?L)"
    using find_first_unprocessed [OF h(4,5)] h(1,3) by simp
  ultimately show ?thesis using h(8) by simp
qed

lemma load_next_loop_all_skipped:
  "\<forall>f\<in>set fs. f \<in> set (processed_files ds) \<or> rd f = Inr [] \<Longrightarrow>
   \<exists>ds'. load_next_loop rd fs ds = Inr (False, ds') \<and> dataset_files ds' = dataset_files ds
        \<and> data ds' = data ds"
proof (induction fs arbitrary: ds)
  case Nil
  then show ?case by simp
next
  case (Cons g fs)
  show ?case
  proof (cases "g \<in> set (processed_files ds)")
    case True
    then show ?thesis using Cons.IH [of ds] Cons.prems by simp
  next
    case False
    then have g: "rd g = Inr []" using Cons.prems by simp
    let ?ds1 = "ds\<lparr>processed_files := processed_files ds @ [g]\<rparr>"
    have "\<forall>f\<in>set fs. f \<in> set (processed_files ?ds1) \<or> rd f = Inr []" using Cons.prems by auto
    from Cons.IH [OF this] show ?thesis using False g by (simp add: load_dataset_file_skipped)
  qed
qed

lemma load_next_loop_first_usable:
  assumes "usable rd f"
  shows "\<forall>g\<in>set pre. rd g = Inr [] \<Longrightarrow> f \<notin> set (processed_files ds) \<Longrightarrow>
   \<exists>ds'. load_next_loop rd (pre @ f # post) ds = Inr (True, ds')
        \<and> last (processed_files ds') = f
        \<and> set (processed_files ds') = set (processed_files ds) \<union> set pre \<union> {f}
        \<and> data ds' = Some (projr (rd f))
        \<and> dataset_files ds' = dataset_files ds"
proof (induction pre arbitrary: ds)
  case Nil
  obtain d where d: "rd f = Inr d" "d \<noteq> []" using assms by (auto simp: usable_def split: sum.splits)
  then show ?case using Nil by (simp add: load_dataset_file_usable)
next
  case (Cons g pre)
  have gf: "g \<noteq> f" using Cons.prems(1) assms by (auto simp: usable_def)
  show ?case
  proof (cases "g \<in> set (processed_files ds)")
    case True
    from Cons.IH [of ds] Cons.prems obtain ds' where
      "load_next_loop rd (pre @ f # post) ds = Inr (True, ds')" "last (processed_files ds') = f"
      "set (processed_files ds') = set (processed_files ds) \<union> set pre \<union> {f}"
      "data ds' = Some (projr (rd f))" "dataset_files ds' = dataset_files ds" by auto
    then show ?thesis using True by auto
  next
    case False
    let ?ds1 = "ds\<lparr>processed_files := processed_files ds @ [g]\<rparr>"
    have "f \<notin> set (processed_files ?ds1)" using Cons.prems(2) gf by simp
    from Cons.IH [OF _ this] Cons.prems(1) obtain ds' where
      "load_next_loop rd (pre @ f # post) ?ds1 = Inr (True, ds')" "last (processed_files ds') = f"
      "set (processed_files ds') = set (processed_files ?ds1) \<union> set pre \<union> {f}"
      "data ds' = Some (projr (rd f))" "dataset_files ds' = dataset_files ?ds1" by auto
    then show ?thesis using False Cons.prems(1) by (auto simp: load_dataset_file_skipped)
  qed
qed

lemma load_next_loop_some_usable:
  "\<forall>f\<in>set fs. \<exists>d. rd f = Inr d \<Longrightarrow>
   \<exists>f\<in>set fs. f \<notin> set (processed_files ds) \<and> usable rd f \<Longrightarrow>
   \<exists>ds'. load_next_loop rd fs ds = Inr (True, ds')"
proof (induction fs arbitrary: ds)
  case Nil
  then show ?case by simp
next
  case (Cons g fs)
  from Cons.prems(2) obtain f where f: "f \<in> set (g # fs)" "f \<notin> set (processed_files ds)" "usable rd f"
    by blast
  show ?case
  proof (cases "g \<in> set (processed_files ds)")
    case True
    then have "f \<in> set fs" using f by auto
    then have "\<exists>f\<in>set fs. f \<notin> set (processed_files ds) \<and> usable rd f" using f by blast
    from Cons.IH [OF _ this] Cons.prems(1) show ?thesis using True by simp
  next
    case False
    obtain d where d: "rd g = Inr d" using Cons.prems(1) by auto
    show ?thesis
    proof (cases "d = []")
      case True
      let ?ds1 = "ds\<lparr>processed_files := processed_files ds @ [g]\<rparr>"
      have "f \<noteq> g" using f(3) d True by (auto simp: usable_def)
      then have "f \<in> set fs" "f \<notin> set (processed_files ?ds1)" using f by auto
      then have "\<exists>f\<in>set fs. f \<notin> set (processed_files ?ds1) \<and> usable rd f" using f by blast
      from Cons.IH [OF _ this] Cons.prems(1) show ?thesis
        using False d True by (simp add: load_dataset_file_skipped)
    next
      case nonempty: False
      then show ?thesis using False d by (simp add: load_dataset_file_usable)
    qed
  qed
qed

lemma find_usable_split:
  "find P fs = Some f \<Longrightarrow> \<exists>post. fs = takeWhile (\<lambda>g. \<not> P g) fs @ f # post \<and> P f"
  by (induction fs) (auto split: if_splits)

lemma find_usable_none: "find P fs = None \<Longrightarrow> \<forall>g\<in>set fs. \<not> P g"
  by (simp add: find_None_iff)

lemma not_usable_skipped: "\<exists>d. rd f = Inr d \<Longrightarrow> \<not> usable rd f \<Longrightarrow> rd f = Inr []"
  by (auto simp: usable_def)

lemma reload_dataset_rollover:
  assumes total: "\<forall>f\<in>set (dataset_files (train_dataset s)). \<exists>d. rd f = Inr d"
    and multi: "length (dataset_files (train_dataset s)) > 1"
    and none: "\<forall>f\<in>set (dataset_files (train_dataset s)).
                 f \<in> set (processed_files (train_dataset s)) \<or> \<not> usable rd f"
  shows "case find (usable rd) (dataset_files (train_dataset s)) of
           None \<Rightarrow> reload_dataset rd s = Inl AssertionError
         | Some f \<Rightarrow> \<exists>s'. reload_dataset rd s = Inr s' \<and> epoch s' = epoch s + 1
               \<and> dataset_offset s' = 0
               \<and> last (processed_files (train_dataset s')) = f
               \<and> set (processed_files (train_dataset s'))
                   = set (takeWhile (\<lambda>g. \<not> usable rd g) (dataset_files (train_dataset s))) \<union> {f}
               \<and> data (train_dataset s') = Some (projr (rd f))"
proof -
  let ?ds = "train_dataset s"
  let ?fs = "dataset_files ?ds"
  have "\<forall>f\<in>set ?fs. f \<in> set (processed_files (?ds\<lparr>data := None\<rparr>)) \<or> rd f = Inr []"
    using none total not_usable_skipped [of rd] by auto
  from load_next_loop_all_skipped [OF this]
  obtain ds1 where ds1: "load_next_dataset rd ?ds = Inr (False, ds1)" "dataset_files ds1 = ?fs"
    by (auto simp: load_next_dataset_def)
  let ?ds2 = "ds1\<lparr>processed_files := []\<rparr>"
  have red: "reload_dataset rd s =
     (case load_next_dataset rd ?ds2 of
        Inl e \<Rightarrow> Inl e
      | Inr (reloaded, ds'') \<Rightarrow>
          if reloaded
          then Inr (s\<lparr>train_dataset := ds'', dataset_offset := 0, epoch := epoch s + 1\<rparr>)
          else Inl AssertionError)"
    using multi ds1(1) by (simp add: reload_dataset_def)
  show ?thesis
  proof (cases "find (usable rd) ?fs")
    case None
    then have "\<forall>f\<in>set ?fs. f \<in> set (processed_files (?ds2\<lparr>data := None\<rparr>)) \<or> rd f = Inr []"
      using find_usable_none [OF None] total not_usable_skipped [of rd] by auto
    from load_next_loop_all_skipped [OF this]
    obtain ds3 where "load_next_dataset rd ?ds2 = Inr (False, ds3)"
      using ds1(2) by (auto simp: load_next_dataset_def)
    then show ?thesis using None red by simp
  next
    case (Some f)
    from find_usable_split [OF Some] obtain post where
      sp: "?fs = takeWhile (\<lambda>g. \<not> usable rd g) ?fs @ f # post" "usable rd f" by blast
    let ?pre = "takeWhile (\<lambda>g. \<not> usable rd g) ?fs"
    have pre: "\<forall>g\<in>set ?pre. rd g = Inr []"
    proof
      fix g assume g: "g \<in> set ?pre"
      then have "\<not> usable rd g" using set_takeWhileD [of g "\<lambda>g. \<not> usable rd g" ?fs] by blast
      moreover have "g \<in> set ?fs" using g set_takeWhileD [of g "\<lambda>g. \<not> usable rd g" ?fs] by blast
      ultimately show "rd g = Inr []" using total not_usable_skipped [of rd g] by blast
    qed
    have "f \<notin> set (processed_files (?ds2\<lparr>data := None\<rparr>))" by simp
    from load_next_loop_first_usable [OF sp(2) pre this, of post]
    obtain ds3 where ds3: "load_next_loop rd (?pre @ f # post) (?ds2\<lparr>data := None\<rparr>) = Inr (True, ds3)"
      "last (processed_files ds3) = f"
      "set (processed_files ds3) = set ?pre \<union> {f}"
      "data ds3 = Some (projr (rd f))" by auto
    have "load_next_dataset rd ?ds2 = Inr (True, ds3)"
      using ds3(1) sp(1) ds1(2) by (simp add: load_next_dataset_def)
    then have "reload_dataset rd s
        = Inr (s\<lparr>train_dataset := ds3, dataset_offset := 0, epoch := epoch s + 1\<rparr>)"
      using red by simp
    then show ?thesis using Some ds3 by simp
  qed
qed

lemma reload_dataset_next_file:
  assumes total: "\<forall>f\<in>set (dataset_files (train_dataset s)). \<exists>d. rd f = Inr d"
    and multi: "length (dataset_files (train_dataset s)) > 1"
    and some: "\<exists>f\<in>set (dataset_files (train_dataset s)).
                 f \<notin> set (processed_files (train_dataset s)) \<and> usable rd f"
  shows "\<exists>s'. reload_dataset rd s = Inr s' \<and> epoch s' = epoch s \<and> dataset_offset s' = 0
          \<and> set (processed_files (train_dataset s)) \<subseteq> set (processed_files (train_dataset s'))
          \<and> last (processed_files (train_dataset s')) \<in> set (dataset_files (train_dataset s))
          \<and> last (processed_files (train_dataset s')) \<notin> set (processed_files (train_dataset s))
          \<and> usable rd (last (processed_files (train_dataset s')))
          \<and> data (train_dataset s') = Some (projr (rd (last (processed_files (train_dataset s')))))"
proof -
  let ?ds = "train_dataset s"
  have "\<exists>f\<in>set (dataset_files ?ds). f \<notin> set (processed_files (?ds\<lparr>data := None\<rparr>)) \<and> usable rd f"
    using some by simp
  from load_next_loop_some_usable [OF total this]
  obtain ds1 where l: "load_next_loop rd (dataset_files ?ds) (?ds\<lparr>data := None\<rparr>) = Inr (True, ds1)"
    by blast
  from load_next_loop_success [OF l] obtain pre f post d where
    h: "dataset_files ?ds = pre @ f # post" "last (processed_files ds1) = f"
       "f \<notin> set (butlast (processed_files ds1))" "processed_files ds1 \<noteq> []"
       "set (processed_files (?ds\<lparr>data := None\<rparr>)) \<subseteq> set (butlast (processed_files ds1))"
       "rd f = Inr d" "d \<noteq> []" "data ds1 = Some d" by blast
  have r: "reload_dataset rd s = Inr (s\<lparr>train_dataset := ds1, dataset_offset := 0\<rparr>)"
    using multi l by (simp add: reload_dataset_def load_next_dataset_def)
  have sub: "set (processed_files ?ds) \<subseteq> set (butlast (processed_files ds1))" using h(5) by simp
  have "set (butlast (processed_files ds1)) \<subseteq> set (processed_files ds1)"
    by (meson in_set_butlastD subsetI)
  then have "set (processed_files ?ds) \<subseteq> set (processed_files ds1)" using sub by blast
  moreover have "f \<notin> set (processed_files ?ds)" using sub h(3) by blast
  moreover have "usable rd f" using h(6,7) by (simp add: usable_def)
  moreover have "f \<in> set (dataset_files ?ds)" using h(1) by simp
  ultimately show ?thesis using r h(2,6,8) by simp
qed

lemma reload_dataset_single_file:
  "length (dataset_files (train_dataset s)) \<le> 1 \<Longrightarrow>
   reload_dataset rd s = Inr (s\<lparr>dataset_offset := 0, epoch := epoch s + 1\<rparr>)"
  by (simp add: reload_dataset_def)

text \<open>
Claim C3, as amended. Parsing raises no error. For a catalog of more than one file:
  when every catalog file is in the ledger or unusable, \<^verbatim>\<open>reload_dataset\<close> clears the
  ledger and loads from the start of the catalog, so the first usable catalog file is
  loaded, the ledger holds the skipped files before it and that file, the offset is zero
  and the epoch is incremented by exactly one; when no catalog file is usable it fails
  with an assertion error. When an unprocessed usable file exists, it is loaded, the
  ledger keeps its entries and the epoch is not incremented. For a catalog of at most
  one file nothing is cleared or reloaded and nothing can fail: the offset is reset and
  the epoch is incremented by one.
\<close>

theorem C3_epoch_rollover:
  assumes "\<forall>f\<in>set (dataset_files (train_dataset s)). \<exists>d. rd f = Inr d"
  shows "(length (dataset_files (train_dataset s)) > 1
          \<and> (\<forall>f\<in>set (dataset_files (train_dataset s)).
                f \<in> set (processed_files (train_dataset s)) \<or> \<not> usable rd f) \<longrightarrow>
          (case find (usable rd) (dataset_files (train_dataset s)) of
             None \<Rightarrow> reload_dataset rd s = Inl AssertionError
           | Some f \<Rightarrow> \<exists>s'. reload_dataset rd s = Inr s' \<and> epoch s' = epoch s + 1
               \<and> dataset_offset s' = 0
               \<and> last (processed_files (train_dataset s')) = f
               \<and> set (processed_files (train_dataset s'))
                   = set (takeWhile (\<lambda>g. \<not> usable rd g) (dataset_files (train_dataset s))) \<union> {f}
               \<and> data (train_dataset s') = Some (projr (rd f))))
       \<and> (length (dataset_files (train_dataset s)) > 1
          \<and> (\<exists>f\<in>set (dataset_files (train_dataset s)).
                f \<notin> set (processed_files (train_dataset s)) \<and> usable rd f) \<longrightarrow>
          (\<exists>s'. reload_dataset rd s = Inr s' \<and> epoch s' = epoch s \<and> dataset_offset s' = 0
             \<and> set (processed_files (train_dataset s)) \<subseteq> set (processed_files (train_dataset s'))
             \<and> last (processed_files (train_dataset s')) \<in> set (dataset_files (train_dataset s))
             \<and> last (processed_files (train_dataset s')) \<notin> set (processed_files (train_dataset s))
             \<and> usable rd (last (processed_files (train_dataset s')))
             \<and> data (train_dataset s') = Some (projr (rd (last (processed_files (train_dataset s')))))))
       \<and> (length (dataset_files (train_dataset s)) \<le> 1 \<longrightarrow>
          reload_dataset rd s = Inr (s\<lparr>dataset_offset := 0, epoch := epoch s + 1\<rparr>))"
  using reload_dataset_rollover [OF assms] reload_dataset_next_file [OF assms]
    reload_dataset_single_file [of s rd]
  by blast

lemma corpus_total: "\<exists>d. corpus f = Inr d"
  by (simp add: corpus_def)

text \<open>
The theorem at three concrete loaders, one for each of its cases.
\<close>

theorem C3_epoch_rollover_witness:
  "(\<exists>s'. reload_dataset corpus
           (loader_init True False 2 (Some 3)
              \<lparr>dataset_files = [''a.bin'', ''b.bin''], processed_files = [''a.bin'', ''b.bin''],
               data = Some [20, 21, 22]\<rparr>
              \<lparr>dataset_files = [], processed_files = [], data = None\<rparr>) = Inr s'
         \<and> epoch s' = 1 \<and> dataset_offset s' = 0
         \<and> last (processed_files (train_dataset s')) = ''a.bin''
         \<and> data (train_dataset s') = Some [10, 11])
   \<and> (\<exists>s'. reload_dataset corpus
           (loader_init True False 2 (Some 2)
              \<lparr>dataset_files = [''a.bin'', ''b.bin''], processed_files = [''a.bin''],
               data = Some [10, 11]\<rparr>
              \<lparr>dataset_files = [], processed_files = [], data = None\<rparr>) = Inr s'
         \<and> epoch s' = 0 \<and> dataset_offset s' = 0
         \<and> last (processed_files (train_dataset s')) \<noteq> ''a.bin'')
   \<and> reload_dataset corpus
        (loader_init True False 2 (Some 2)
           \<lparr>dataset_files = [''a.bin''], processed_files = [''a.bin''], data = Some [10, 11]\<rparr>
           \<lparr>dataset_files = [], processed_files = [], data = None\<rparr>)
      = Inr ((loader_init True False 2 (Some 2)
           \<lparr>dataset_files = [''a.bin''], processed_files = [''a.bin''], data = Some [10, 11]\<rparr>
           \<lparr>dataset_files = [], processed_files = [], data = None\<rparr>)\<lparr>dataset_offset := 0, epoch := 1\<rparr>)"
proof -
  have u: "usable corpus ''a.bin''" "usable corpus ''b.bin''" by (simp_all add: usable_def corpus_def)
  have t: "\<forall>f\<in>set (dataset_files (train_dataset s)). \<exists>d. corpus f = Inr d" for s :: "nat loader"
    using corpus_total by blast
  let ?sa = "loader_init True False 2 (Some 3)
              \<lparr>dataset_files = [''a.bin'', ''b.bin''], processed_files = [''a.bin'', ''b.bin''],
               data = Some [20, 21, 22::nat]\<rparr>
              \<lparr>dataset_files = [], processed_files = [], data = None\<rparr>"
  let ?sb = "loader_init True False 2 (Some 2)
              \<lparr>dataset_files = [''a.bin'', ''b.bin''], processed_files = [''a.bin''],
               data = Some [10, 11::nat]\<rparr>
              \<lparr>dataset_files = [], processed_files = [], data = None\<rparr>"
  let ?sc = "loader_init True False 2 (Some 2)
           \<lparr>dataset_files = [''a.bin''], processed_files = [''a.bin''], data = Some [10, 11::nat]\<rparr>
           \<lparr>dataset_files = [], processed_files = [], data = None\<rparr>"
  have pa: "length (dataset_files (train_dataset ?sa)) > 1
       \<and> (\<forall>f\<in>set (dataset_files (train_dataset ?sa)).
             f \<in> set (processed_files (train_dataset ?sa)) \<or> \<not> usable corpus f)"
    by (simp add: loader_init_def)
  have fa: "find (usable corpus) (dataset_files (train_dataset ?sa)) = Some ''a.bin''"
    by (simp add: loader_init_def u)
  note ca = C3_epoch_rollover [OF t [of ?sa], THEN conjunct1, THEN mp, OF pa]
  from ca obtain s' where
    "reload_dataset corpus ?sa = Inr s'" "epoch s' = epoch ?sa + 1" "dataset_offset s' = 0"
    "last (processed_files (train_dataset s')) = ''a.bin''"
    "data (train_dataset s') = Some (projr (corpus ''a.bin''))"
    unfolding fa option.case by blast
  then have a: "\<exists>s'. reload_dataset corpus ?sa = Inr s' \<and> epoch s' = 1 \<and> dataset_offset s' = 0
         \<and> last (processed_files (train_dataset s')) = ''a.bin''
         \<and> data (train_dataset s') = Some [10, 11]"
    by (simp add: loader_init_def corpus_def)
  have pb: "length (dataset_files (train_dataset ?sb)) > 1
       \<and> (\<exists>f\<in>set (dataset_files (train_dataset ?sb)).
             f \<notin> set (processed_files (train_dataset ?sb)) \<and> usable corpus f)"
    by (simp add: loader_init_def u)
  note cb = C3_epoch_rollover [OF t [of ?sb], THEN conjunct2, THEN conjunct1, THEN mp, OF pb]
  from cb obtain s'' where
    "reload_dataset corpus ?sb = Inr s''" "epoch s'' = epoch ?sb" "dataset_offset s'' = 0"
    "last (processed_files (train_dataset s'')) \<notin> set (processed_files (train_dataset ?sb))"
    by blast
  then have b: "\<exists>s'. reload_dataset corpus ?sb = Inr s' \<and> epoch s' = 0 \<and> dataset_offset s' = 0
         \<and> last (processed_files (train_dataset s')) \<noteq> ''a.bin''"
    by (simp add: loader_init_def)
  have pc: "length (dataset_files (train_dataset ?sc)) \<le> 1" by (simp add: loader_init_def)
  note cc = C3_epoch_rollover [OF t [of ?sc], THEN conjunct2, THEN conjunct2, THEN mp, OF pc]
  have c: "reload_dataset corpus ?sc = Inr (?sc\<lparr>dataset_offset := 0, epoch := 1\<rparr>)"
    using cc by (simp add: loader_init_def)
  from a b c show ?thesis by blast
qed

text \<open>
Claim C3 as stated fails for a single-file corpus whose file is too short. The
  constructor leaves the file in the ledger with no data loaded; loading from a cleared
  ledger yields no data; and \<^verbatim>\<open>reload_dataset\<close> still returns normally, with the epoch
  incremented and the ledger as it was.
\<close>

theorem C3_single_unusable_file_counterexample:
  "dataset_init corpus [''short.bin''] 0
     = Inr \<lparr>dataset_files = [''short.bin''], processed_files = [''short.bin''], data = None\<rparr>
   \<and> load_next_dataset corpus \<lparr>dataset_files = [''short.bin''], processed_files = [], data = None\<rparr>
     = Inr (False, \<lparr>dataset_files = [''short.bin''], processed_files = [''short.bin''], data = None\<rparr>)
   \<and> reload_dataset corpus
       (loader_init True False 1 None
          \<lparr>dataset_files = [''short.bin''], processed_files = [''short.bin''], data = None\<rparr>
          \<lparr>dataset_files = [], processed_files = [], data = None\<rparr>)
     = Inr \<lparr>dataset_seq_train = True, dataset_buffer = False, batch_size = 1, dataset_offset = 0,
            epoch = 1,
            train_dataset = \<lparr>dataset_files = [''short.bin''], processed_files = [''short.bin''],
                             data = None\<rparr>,
            val_dataset = None, buffer = None, buffer_thread = None\<rparr>"
  by (simp add: dataset_init_def load_next_dataset_def load_dataset_file_def corpus_def
      reload_dataset_def loader_init_def has_data_def)

text \<open>
The theorem at a concrete checkpoint: two files, the second one in progress at
  offset 2.
\<close>

theorem C2_resume_same_file_same_offset_witness:
  "load_next_dataset corpus
      \<lparr>dataset_files = [''a.bin'', ''b.bin''], processed_files = [''a.bin''], data = Some [10, 11]\<rparr>
     = Inr (True, \<lparr>dataset_files = [''a.bin'', ''b.bin''], processed_files = [''a.bin'', ''b.bin''],
                   data = Some [20, 21, 22]\<rparr>)
   \<and> (\<exists>s'. resume corpus
          (save_checkpoint
             ((loader_init True False 1 (Some 2)
                \<lparr>dataset_files = [''a.bin'', ''b.bin''], processed_files = [''a.bin'', ''b.bin''],
                 data = Some [20, 21, 22 :: nat]\<rparr>
                \<lparr>dataset_files = [], processed_files = [], data = None\<rparr>)\<lparr>epoch := 4\<rparr>))
          (loader_init True False 1 None
             \<lparr>dataset_files = [''a.bin'', ''b.bin''], processed_files = [''a.bin''],
              data = Some [10, 11]\<rparr>
             \<lparr>dataset_files = [], processed_files = [], data = None\<rparr>) = Inr s'
        \<and> processed_files (train_dataset s') = [''a.bin'', ''b.bin'']
        \<and> data (train_dataset s') = Some [20, 21, 22]
        \<and> dataset_offset s' = 2 \<and> epoch s' = 4)"
proof -
  let ?start = "\<lparr>dataset_files = [''a.bin'', ''b.bin''], processed_files = [''a.bin''],
               data = Some [10, 11::nat]\<rparr>"
  let ?ds = "\<lparr>dataset_files = [''a.bin'', ''b.bin''], processed_files = [''a.bin'', ''b.bin''],
              data = Some [20, 21, 22::nat]\<rparr>"
  let ?val = "\<lparr>dataset_files = [], processed_files = [], data = None :: nat list option\<rparr>"
  let ?s = "(loader_init True False 1 (Some 2) ?ds ?val)\<lparr>epoch := 4\<rparr>"
  let ?snew = "loader_init True False 1 None ?start ?val"
  have h1: "load_next_dataset corpus ?start = Inr (True, train_dataset ?s)"
    by (simp add: load_next_dataset_def load_dataset_file_def corpus_def loader_init_def)
  have h2: "dataset_files (train_dataset ?snew) = dataset_files (train_dataset ?s)"
    by (simp add: loader_init_def)
  from C2_resume_same_file_same_offset [OF h1 h2]
  have "\<exists>s'. resume corpus (save_checkpoint ?s) ?snew = Inr s'
        \<and> processed_files (train_dataset s') = [''a.bin'', ''b.bin'']
        \<and> data (train_dataset s') = Some [20, 21, 22]
        \<and> dataset_offset s' = 2 \<and> epoch s' = 4"
    by (simp add: loader_init_def has_data_def) blast
  moreover have "load_next_dataset corpus ?start = Inr (True, ?ds)"
    using h1 by (simp add: loader_init_def)
  ultimately show ?thesis by blast
qed

section \<open>Proofs: the sequential cursor over a single file\<close>

lemma len_Some: "data ds = Some d \<Longrightarrow> len ds = length d"
  by (simp add: len_def)

lemma getitem_Some: "data ds = Some d \<Longrightarrow> i < length d \<Longrightarrow> getitem ds i = Some (d ! i)"
  by (simp add: getitem_def len_def)

lemma fetch_samples_single_file:
  assumes single: "length (dataset_files (train_dataset s)) \<le> 1"
    and d: "data (train_dataset s) = Some d" and K: "0 < length d"
  shows "dataset_offset s \<le> length d \<Longrightarrow>
    \<exists>q o'. fetch_samples rd n s acc
        = Inr (acc @ map (\<lambda>i. Some (d ! ((dataset_offset s + i) mod length d))) [0..<n],
               s\<lparr>dataset_offset := o', epoch := epoch s + q\<rparr>)
      \<and> o' \<le> length d \<and> (0 < dataset_offset s + n \<longrightarrow> 0 < o')
      \<and> dataset_offset s + n = q * length d + o'"
  using single d
proof (induction n arbitrary: s acc)
  case 0
  have "s\<lparr>dataset_offset := dataset_offset s, epoch := epoch s + 0\<rparr> = s" by simp
  then have "fetch_samples rd 0 s acc
        = Inr (acc @ map (\<lambda>i. Some (d ! ((dataset_offset s + i) mod length d))) [0..<0],
               s\<lparr>dataset_offset := dataset_offset s, epoch := epoch s + 0\<rparr>)
      \<and> dataset_offset s \<le> length d \<and> (0 < dataset_offset s + 0 \<longrightarrow> 0 < dataset_offset s)
      \<and> dataset_offset s + 0 = 0 * length d + dataset_offset s"
    using "0.prems" by simp
  then show ?case by blast
next
  case (Suc n)
  let ?K = "length d"
  let ?o = "dataset_offset s"
  define s1 where "s1 = (if ?o \<ge> ?K then s\<lparr>dataset_offset := 0, epoch := epoch s + 1\<rparr> else s)"
  define q1 :: nat where "q1 = (if ?o \<ge> ?K then 1 else 0)"
  have r: "(if dataset_offset s \<ge> len (train_dataset s) then reload_dataset rd s else Inr s) = Inr s1"
    using Suc.prems by (simp add: s1_def len_Some reload_dataset_def)
  have o1: "dataset_offset s1 = ?o mod ?K" "dataset_offset s1 < ?K"
  proof -
    show "dataset_offset s1 = ?o mod ?K"
    proof (cases "?o \<ge> ?K")
      case True
      then have "?o = ?K" using Suc.prems(1) by simp
      then show ?thesis by (simp add: s1_def)
    next
      case False
      then show ?thesis by (simp add: s1_def)
    qed
    then show "dataset_offset s1 < ?K" using K by simp
  qed
  have e1: "epoch s1 = epoch s + q1" by (simp add: s1_def q1_def)
  have c1: "?o = q1 * ?K + dataset_offset s1" using Suc.prems(1) by (auto simp: s1_def q1_def)
  have t1: "train_dataset s1 = train_dataset s" by (simp add: s1_def)
  let ?s2 = "s1\<lparr>dataset_offset := dataset_offset s1 + 1\<rparr>"
  have g: "getitem (train_dataset s1) (dataset_offset s1) = Some (d ! (?o mod ?K))"
    using getitem_Some [of "train_dataset s1" d "dataset_offset s1"] Suc.prems(3) o1 t1 by simp
  have step: "fetch_samples rd (Suc n) s acc
      = fetch_samples rd n ?s2 (acc @ [Some (d ! (?o mod ?K))])"
    using r g by simp
  have p1: "dataset_offset ?s2 \<le> ?K" using o1 by simp
  have p2: "length (dataset_files (train_dataset ?s2)) \<le> 1" using Suc.prems(2) t1 by simp
  have p3: "data (train_dataset ?s2) = Some d" using Suc.prems(3) t1 by simp
  have "\<exists>q o'. fetch_samples rd n ?s2 (acc @ [Some (d ! (?o mod ?K))])
        = Inr ((acc @ [Some (d ! (?o mod ?K))])
                 @ map (\<lambda>i. Some (d ! ((dataset_offset ?s2 + i) mod ?K))) [0..<n],
               ?s2\<lparr>dataset_offset := o', epoch := epoch ?s2 + q\<rparr>)
      \<and> o' \<le> ?K \<and> (0 < dataset_offset ?s2 + n \<longrightarrow> 0 < o')
      \<and> dataset_offset ?s2 + n = q * ?K + o'"
    by (rule Suc.IH [OF p1 p2 p3])
  then obtain q o' where ihc:
    "fetch_samples rd n ?s2 (acc @ [Some (d ! (?o mod ?K))])
        = Inr ((acc @ [Some (d ! (?o mod ?K))])
                 @ map (\<lambda>i. Some (d ! ((dataset_offset ?s2 + i) mod ?K))) [0..<n],
               ?s2\<lparr>dataset_offset := o', epoch := epoch ?s2 + q\<rparr>)
      \<and> o' \<le> ?K \<and> (0 < dataset_offset ?s2 + n \<longrightarrow> 0 < o')
      \<and> dataset_offset ?s2 + n = q * ?K + o'"
    by (elim exE)
  have pos2: "0 < dataset_offset ?s2 + n" by simp
  have ih: "fetch_samples rd n ?s2 (acc @ [Some (d ! (?o mod ?K))])
        = Inr ((acc @ [Some (d ! (?o mod ?K))])
                 @ map (\<lambda>i. Some (d ! ((dataset_offset ?s2 + i) mod ?K))) [0..<n],
               ?s2\<lparr>dataset_offset := o', epoch := epoch ?s2 + q\<rparr>)"
    "o' \<le> ?K" "dataset_offset ?s2 + n = q * ?K + o'" "0 < o'"
    using ihc pos2 by (simp_all only:)
  have idx: "(dataset_offset ?s2 + i) mod ?K = (?o + Suc i) mod ?K" for i
  proof -
    have "(dataset_offset ?s2 + i) mod ?K = (?o mod ?K + Suc i) mod ?K" using o1(1) by simp
    also have "\<dots> = (?o + Suc i) mod ?K" by (rule mod_add_left_eq)
    finally show ?thesis .
  qed
  have lst: "map (\<lambda>i. Some (d ! ((?o + i) mod ?K))) [0..<Suc n]
      = Some (d ! (?o mod ?K)) # map (\<lambda>i. Some (d ! ((dataset_offset ?s2 + i) mod ?K))) [0..<n]"
  proof -
    have "map (\<lambda>i. Some (d ! ((?o + i) mod ?K))) [0..<Suc n]
        = Some (d ! ((?o + 0) mod ?K)) # map (\<lambda>i. Some (d ! ((?o + Suc i) mod ?K))) [0..<n]"
      by (simp only: map_upt_Suc)
    then show ?thesis by (simp only: idx [symmetric] add_0_right)
  qed
  have st: "?s2\<lparr>dataset_offset := o', epoch := epoch ?s2 + q\<rparr>
      = s\<lparr>dataset_offset := o', epoch := epoch s + (q1 + q)\<rparr>"
    by (simp add: s1_def q1_def)
  have cnt: "?o + Suc n = (q1 + q) * ?K + o'"
  proof -
    have "?o + Suc n = q1 * ?K + (dataset_offset ?s2 + n)" using c1 by simp
    also have "\<dots> = q1 * ?K + (q * ?K + o')" by (simp only: ih(3))
    finally show ?thesis by (simp add: add_mult_distrib)
  qed
  have "fetch_samples rd (Suc n) s acc
        = Inr (acc @ map (\<lambda>i. Some (d ! ((?o + i) mod ?K))) [0..<Suc n],
               s\<lparr>dataset_offset := o', epoch := epoch s + (q1 + q)\<rparr>)"
    by (simp only: step ih(1) lst st append_assoc append_Cons append_Nil)
  then show ?case using ih(2,4) cnt by (intro exI [of _ "q1 + q"] exI [of _ o']) simp
qed

lemma prepare_samples_Some: "xs \<noteq> [] \<Longrightarrow> prepare_samples (map Some xs) = Inr xs"
  by (auto simp: prepare_samples_def comp_def)

lemma reload_buffer_fields:
  "dataset_seq_train (reload_buffer s) = dataset_seq_train s"
  "dataset_buffer (reload_buffer s) = dataset_buffer s"
  "batch_size (reload_buffer s) = batch_size s"
  "dataset_offset (reload_buffer s) = dataset_offset s"
  "epoch (reload_buffer s) = epoch s"
  "train_dataset (reload_buffer s) = train_dataset s"
  "val_dataset (reload_buffer s) = val_dataset s"
  "buffer (reload_buffer s) = None"
  by (simp_all add: reload_buffer_def Let_def)

lemma window_as_map:
  assumes "lo + n \<le> length d"
  shows "take n (drop lo d) = map (\<lambda>i. d ! ((lo + i) mod length d)) [0..<n]"
proof (rule nth_equalityI)
  show "length (take n (drop lo d)) = length (map (\<lambda>i. d ! ((lo + i) mod length d)) [0..<n])"
    using assms by simp
next
  fix i assume "i < length (take n (drop lo d))"
  then have i: "i < n" by simp
  then have "lo + i < length d" using assms by simp
  then show "take n (drop lo d) ! i = map (\<lambda>i. d ! ((lo + i) mod length d)) [0..<n] ! i"
    using i by simp
qed

lemma get_batch_single_file:
  assumes seq: "dataset_seq_train s" and nobuf: "\<not> dataset_buffer s"
    and single: "length (dataset_files (train_dataset s)) \<le> 1"
    and d: "data (train_dataset s) = Some d" and K: "0 < length d"
    and B: "0 < batch_size s" and off: "dataset_offset s \<le> length d"
  shows "\<exists>q o'. get_batch rd ''train'' False idx s
        = Inr (map (\<lambda>i. d ! ((dataset_offset s + i) mod length d)) [0..<batch_size s],
               reload_buffer (s\<lparr>dataset_offset := o', epoch := epoch s + q\<rparr>))
      \<and> o' \<le> length d \<and> 0 < o'
      \<and> dataset_offset s + batch_size s = q * length d + o'"
proof -
  let ?B = "batch_size s" and ?o = "dataset_offset s" and ?K = "length d"
  let ?batch = "map (\<lambda>i. d ! ((?o + i) mod ?K)) [0..<?B]"
  have gb: "get_batch rd ''train'' False idx s = get_batch_sync rd s"
    using seq nobuf by (simp add: get_batch_def)
  have ne: "?batch \<noteq> []" using B by simp
  have prep: "prepare_samples (map (\<lambda>i. Some (d ! ((?o + i) mod ?K))) [0..<?B]) = Inr ?batch"
    using prepare_samples_Some [OF ne] by (simp add: comp_def)
  show ?thesis
  proof (cases "?o + ?B \<le> ?K")
    case True
    have sl: "getitem_slice (train_dataset s) ?o (?o + ?B)
        = Inr (map (\<lambda>i. Some (d ! ((?o + i) mod ?K))) [0..<?B])"
      using d window_as_map [OF True] by (simp add: getitem_slice_def comp_def)
    have "get_batch_sync rd s = Inr (?batch, reload_buffer (s\<lparr>dataset_offset := ?o + ?B\<rparr>))"
      using True d sl prep by (simp add: get_batch_sync_def len_Some Let_def)
    moreover have "s\<lparr>dataset_offset := ?o + ?B\<rparr> = s\<lparr>dataset_offset := ?o + ?B, epoch := epoch s + 0\<rparr>"
      by simp
    ultimately have "get_batch rd ''train'' False idx s
        = Inr (?batch, reload_buffer (s\<lparr>dataset_offset := ?o + ?B, epoch := epoch s + 0\<rparr>))
      \<and> ?o + ?B \<le> ?K \<and> 0 < ?o + ?B \<and> ?o + ?B = 0 * ?K + (?o + ?B)"
      using gb True B by simp
    then show ?thesis by blast
  next
    case False
    from fetch_samples_single_file [OF single d K off, of rd ?B "[]"]
    obtain q o' where f: "fetch_samples rd ?B s []
        = Inr ([] @ map (\<lambda>i. Some (d ! ((?o + i) mod ?K))) [0..<?B],
               s\<lparr>dataset_offset := o', epoch := epoch s + q\<rparr>)
      \<and> o' \<le> ?K \<and> (0 < ?o + ?B \<longrightarrow> 0 < o') \<and> ?o + ?B = q * ?K + o'"
      by (elim exE)
    then have "get_batch_sync rd s
        = Inr (?batch, reload_buffer (s\<lparr>dataset_offset := o', epoch := epoch s + q\<rparr>))"
      using False d prep by (simp add: get_batch_sync_def len_Some Let_def)
    then have "get_batch rd ''train'' False idx s
        = Inr (?batch, reload_buffer (s\<lparr>dataset_offset := o', epoch := epoch s + q\<rparr>))
      \<and> o' \<le> ?K \<and> 0 < o' \<and> ?o + ?B = q * ?K + o'"
      using gb f B by simp
    then show ?thesis by blast
  qed
qed

lemma train_batches_single_file:
  assumes seq: "dataset_seq_train s" and nobuf: "\<not> dataset_buffer s"
    and single: "length (dataset_files (train_dataset s)) \<le> 1"
    and d: "data (train_dataset s) = Some d" and K: "0 < length d"
    and B: "0 < batch_size s" and off: "dataset_offset s = 0"
  shows "\<exists>q o' s'. train_batches rd n s
        = Inr (map (\<lambda>j. map (\<lambda>i. d ! ((j * batch_size s + i) mod length d)) [0..<batch_size s]) [0..<n], s')
      \<and> dataset_seq_train s' \<and> \<not> dataset_buffer s' \<and> train_dataset s' = train_dataset s
      \<and> batch_size s' = batch_size s \<and> dataset_offset s' = o' \<and> epoch s' = epoch s + q
      \<and> o' \<le> length d \<and> (0 < n \<longrightarrow> 0 < o') \<and> n * batch_size s = q * length d + o'"
proof (induction n)
  case 0
  have "train_batches rd 0 s
        = Inr (map (\<lambda>j. map (\<lambda>i. d ! ((j * batch_size s + i) mod length d)) [0..<batch_size s]) [0..<0], s)
      \<and> dataset_seq_train s \<and> \<not> dataset_buffer s \<and> train_dataset s = train_dataset s
      \<and> batch_size s = batch_size s \<and> dataset_offset s = 0 \<and> epoch s = epoch s + 0
      \<and> 0 \<le> length d \<and> (0 < (0::nat) \<longrightarrow> 0 < (0::nat)) \<and> 0 * batch_size s = 0 * length d + 0"
    using seq nobuf off by simp
  then show ?case by blast
next
  case (Suc n)
  let ?B = "batch_size s" and ?K = "length d"
  let ?f = "\<lambda>j. map (\<lambda>i. d ! ((j * ?B + i) mod ?K)) [0..<?B]"
  from Suc.IH obtain q o' s' where ih:
    "train_batches rd n s = Inr (map ?f [0..<n], s')"
    "dataset_seq_train s'" "\<not> dataset_buffer s'" "train_dataset s' = train_dataset s"
    "batch_size s' = ?B" "dataset_offset s' = o'" "epoch s' = epoch s + q"
    "o' \<le> ?K" "n * ?B = q * ?K + o'"
    by (elim exE conjE)
  have single': "length (dataset_files (train_dataset s')) \<le> 1" using single ih(4) by simp
  have d': "data (train_dataset s') = Some d" using d ih(4) by simp
  have B': "0 < batch_size s'" using B ih(5) by simp
  have off': "dataset_offset s' \<le> ?K" using ih(6,8) by simp
  from get_batch_single_file [OF ih(2) ih(3) single' d' K B' off', of rd "[]"]
  obtain q' o'' where g:
    "get_batch rd ''train'' False [] s'
        = Inr (map (\<lambda>i. d ! ((dataset_offset s' + i) mod ?K)) [0..<batch_size s'],
               reload_buffer (s'\<lparr>dataset_offset := o'', epoch := epoch s' + q'\<rparr>))"
    "o'' \<le> ?K" "0 < o''" "dataset_offset s' + batch_size s' = q' * ?K + o''"
    by (elim exE conjE)
  have idx: "(dataset_offset s' + i) mod ?K = (n * ?B + i) mod ?K" for i
  proof -
    have "n * ?B + i = o' + i + q * ?K" using ih(9) by linarith
    then have "(n * ?B + i) mod ?K = (o' + i + q * ?K) mod ?K" by (simp only:)
    also have "\<dots> = (o' + i) mod ?K" by (rule mod_mult_self1)
    finally show ?thesis by (simp add: ih(6))
  qed
  have b: "map (\<lambda>i. d ! ((dataset_offset s' + i) mod ?K)) [0..<batch_size s'] = ?f n"
    by (simp only: idx ih(5))
  let ?s'' = "reload_buffer (s'\<lparr>dataset_offset := o'', epoch := epoch s' + q'\<rparr>)"
  have tb: "train_batches rd (Suc n) s = Inr (map ?f [0..<n] @ [?f n], ?s'')"
    using ih(1) g(1) b by simp
  have lst: "map ?f [0..<Suc n] = map ?f [0..<n] @ [?f n]" by simp
  have cnt: "Suc n * ?B = (q + q') * ?K + o''"
  proof -
    have "Suc n * ?B = n * ?B + ?B" by simp
    also have "\<dots> = q * ?K + (o' + ?B)" by (simp add: ih(9))
    also have "o' + ?B = q' * ?K + o''" using g(4) ih(5,6) by simp
    finally show ?thesis by (simp add: add_mult_distrib)
  qed
  have "train_batches rd (Suc n) s = Inr (map ?f [0..<Suc n], ?s'')
      \<and> dataset_seq_train ?s'' \<and> \<not> dataset_buffer ?s'' \<and> train_dataset ?s'' = train_dataset s
      \<and> batch_size ?s'' = batch_size s \<and> dataset_offset ?s'' = o'' \<and> epoch ?s'' = epoch s + (q + q')
      \<and> o'' \<le> length d \<and> (0 < Suc n \<longrightarrow> 0 < o'') \<and> Suc n * batch_size s = (q + q') * length d + o''"
    using tb ih(2-5,7) g(2,3) cnt by (simp add: reload_buffer_fields del: upt_Suc map_append) (simp only: lst)
  then show ?case by blast
qed

lemma epoch_count:
  assumes "n * B = q * K + o'" "o' \<le> K" "0 < K" "0 < n \<longrightarrow> 0 < o'"
  shows "q = (n * B - 1) div (K::nat)"
proof (cases "0 < o'")
  case True
  then have "n * B - 1 = (o' - 1) + q * K" using assms(1) by linarith
  moreover have "((o' - 1) + q * K) div K = (o' - 1) div K + q" using assms(3) by simp
  moreover have "(o' - 1) div K = 0" using True assms(2) by simp
  ultimately show ?thesis by (simp only: add_0)
next
  case False
  then have "n = 0" "o' = 0" using assms(4) by auto
  then have "q * K = 0" using assms(1) by simp
  then have "q = 0" using assms(3) by simp
  then show ?thesis using \<open>n = 0\<close> by simp
qed

lemma concat_blocks:
  "concat (map (\<lambda>j. map (\<lambda>i. f (j * B + i)) [0..<B]) [0..<n]) = map f [0..<n * B]"
proof (induction n)
  case 0
  show ?case by simp
next
  case (Suc n)
  have "map (\<lambda>i. f (n * B + i)) [0..<B] = map f [n * B..<n * B + B]"
  proof -
    have "map f (map (\<lambda>i. i + n * B) [0..<B]) = map f [n * B..<B + n * B]"
      by (simp only: map_add_upt)
    then show ?thesis by (simp add: comp_def add.commute)
  qed
  moreover have "[0..<Suc n * B] = [0..<n * B] @ [n * B..<n * B + B]"
    using upt_add_eq_append [of 0 "n * B" B] by (simp add: add.commute)
  ultimately show ?case using Suc.IH by simp
qed

lemma first_pass:
  assumes "length d \<le> N"
  shows "take (length d) (map (\<lambda>p. d ! (p mod length d)) [0..<N]) = d"
proof -
  have "take (length d) (map (\<lambda>p. d ! (p mod length d)) [0..<N])
      = map (\<lambda>p. d ! (p mod length d)) [0..<length d]"
    using assms by (simp add: take_map)
  also have "\<dots> = map ((!) d) [0..<length d]" by (intro map_cong refl) simp
  also have "\<dots> = d" by (rule map_nth)
  finally show ?thesis .
qed

lemma period_divides:
  assumes "B dvd K" "0 < B" "1 \<le> n" "0 < K"
  shows "((n + K div B) * B - 1) div K = (n * B - 1) div K + (1::nat)"
proof -
  have "K div B * B = K" using assms(1) by simp
  then have "(n + K div B) * B = n * B + K" by (simp add: add_mult_distrib)
  moreover have "1 \<le> n * B" using assms(2,3) by (cases n) auto
  ultimately have "(n + K div B) * B - 1 = (n * B - 1) + K" by linarith
  moreover have "((n * B - 1) + K) div K = (n * B - 1) div K + 1"
    by (rule div_add_self2) (use assms(4) in simp)
  ultimately show ?thesis by (simp only:)
qed

lemma wrap_arith:
  assumes "\<not> B dvd K" "0 < B" "B < (K::nat)"
  shows "K div B * B = K - K mod B" "0 < K mod B" "K mod B < B"
    "(K div B * B - 1) div K = 0" "((K div B + 1) * B - 1) div K = 1"
proof -
  show r: "0 < K mod B" using assms(1) by (simp add: dvd_eq_mod_eq_0)
  show rb: "K mod B < B" using assms(2) by simp
  have "K div B * B + K mod B = K" by simp
  then show j: "K div B * B = K - K mod B" by linarith
  have "K - K mod B - 1 < K" using assms(2,3) by simp
  then show "(K div B * B - 1) div K = 0" by (simp add: j)
  have "(K div B + 1) * B = K - K mod B + B" using j by (simp add: add_mult_distrib)
  then have e: "(K div B + 1) * B - 1 = (B - K mod B - 1) + K" using r rb assms(3) by linarith
  have "((B - K mod B - 1) + K) div K = (B - K mod B - 1) div K + 1"
    by (rule div_add_self2) (use assms in simp)
  moreover have "(B - K mod B - 1) div K = 0" using assms(2,3) by simp
  ultimately show "((K div B + 1) * B - 1) div K = 1" by (simp only: e add_0)
qed

lemma wrapped_batch:
  assumes "0 < r" "r < B" "B < length d"
  shows "map (\<lambda>i. d ! ((length d - r + i) mod length d)) [0..<B]
       = drop (length d - r) d @ take (B - r) d"
proof (rule nth_equalityI)
  show "length (map (\<lambda>i. d ! ((length d - r + i) mod length d)) [0..<B])
      = length (drop (length d - r) d @ take (B - r) d)"
    using assms by simp
next
  fix i assume "i < length (map (\<lambda>i. d ! ((length d - r + i) mod length d)) [0..<B])"
  then have i: "i < B" by simp
  let ?K = "length d"
  have ld: "length (drop (?K - r) d) = r" using assms by simp
  show "map (\<lambda>i. d ! ((?K - r + i) mod ?K)) [0..<B] ! i = (drop (?K - r) d @ take (B - r) d) ! i"
  proof (cases "i < r")
    case True
    then have "?K - r + i < ?K" using assms by linarith
    then have "(?K - r + i) mod ?K = ?K - r + i" by simp
    moreover have "(drop (?K - r) d @ take (B - r) d) ! i = d ! (?K - r + i)"
      using True ld assms by (simp add: nth_append)
    ultimately show ?thesis using i by simp
  next
    case False
    then have "?K - r + i = (i - r) + ?K" using assms by linarith
    then have "(?K - r + i) mod ?K = (i - r) mod ?K" by simp
    moreover have "i - r < ?K" using i assms by linarith
    ultimately have m: "(?K - r + i) mod ?K = i - r" by simp
    have "(drop (?K - r) d @ take (B - r) d) ! i = take (B - r) d ! (i - r)"
      using False ld by (simp add: nth_append)
    also have "\<dots> = d ! (i - r)" using i False by simp
    finally show ?thesis using i m by simp
  qed
qed

text \<open>
Claim C4. Sequential training over a single-file corpus of \<open>K\<close> samples \<open>d\<close>, with a
  constant batch size \<open>0 < B < K\<close>, the cursor at offset 0 and the prefetch buffer
  disabled. Every call returns a batch, and the \<open>j\<close>-th batch (counting from 0) holds the
  samples at the stream positions \<open>j * B\<close>, ..., \<open>j * B + B - 1\<close> taken modulo \<open>K\<close>: the
  batches concatenated are the file read cyclically, so the first \<open>K\<close> samples returned
  are the whole file, each sample once, before any sample comes a second time. After
  \<open>n\<close> batches the epoch counter has grown by \<open>(n * B - 1) div K\<close> (the rollover happens
  when the first sample of the next pass is fetched, not when the last sample of a pass
  is). When \<open>B\<close> divides \<open>K\<close>, every further \<open>K div B\<close> batches increment the epoch by
  exactly one. When it does not, the batch with index \<open>K div B\<close> is a wrapped batch: the
  last \<open>K mod B\<close> samples of the file followed by the first \<open>B - K mod B\<close> samples, and the
  epoch goes from its start value to one more during that batch.
\<close>

theorem C4_single_file_sequential_stream:
  assumes "dataset_seq_train s" and "\<not> dataset_buffer s"
    and "length (dataset_files (train_dataset s)) = 1"
    and "data (train_dataset s) = Some d" and "length d = K"
    and "batch_size s = B" and "0 < B" and "B < K" and "dataset_offset s = 0"
  shows "batches_of rd n s = Some (map (\<lambda>j. map (\<lambda>i. d ! ((j * B + i) mod K)) [0..<B]) [0..<n])
       \<and> map_option concat (batches_of rd n s) = Some (map (\<lambda>p. d ! (p mod K)) [0..<n * B])
       \<and> (K \<le> n * B \<longrightarrow> map_option (take K \<circ> concat) (batches_of rd n s) = Some d)
       \<and> epoch_after rd n s = Some (epoch s + (n * B - 1) div K)
       \<and> (B dvd K \<and> 1 \<le> n \<longrightarrow>
            epoch_after rd (n + K div B) s = map_option Suc (epoch_after rd n s))
       \<and> (\<not> B dvd K \<longrightarrow>
            epoch_after rd (K div B) s = Some (epoch s)
            \<and> epoch_after rd (K div B + 1) s = Some (epoch s + 1)
            \<and> map_option last (batches_of rd (K div B + 1) s)
                = Some (drop (K - K mod B) d @ take (B - K mod B) d))"
proof -
  let ?blocks = "\<lambda>m. map (\<lambda>j. map (\<lambda>i. d ! ((j * B + i) mod K)) [0..<B]) [0..<m]"
  have single: "length (dataset_files (train_dataset s)) \<le> 1" using assms(3) by simp
  have Kpos: "0 < length d" using assms(5,7,8) by simp
  have Bpos: "0 < batch_size s" using assms(6,7) by simp
  have run: "batches_of rd m s = Some (?blocks m)
             \<and> epoch_after rd m s = Some (epoch s + (m * B - 1) div K)" for m
  proof -
    from train_batches_single_file [OF assms(1) assms(2) single assms(4) Kpos Bpos assms(9), of rd m]
    obtain q o' s' where t:
      "train_batches rd m s
        = Inr (map (\<lambda>j. map (\<lambda>i. d ! ((j * batch_size s + i) mod length d)) [0..<batch_size s]) [0..<m], s')"
      "epoch s' = epoch s + q" "o' \<le> length d" "0 < m \<longrightarrow> 0 < o'"
      "m * batch_size s = q * length d + o'"
      by (elim exE conjE)
    have q: "q = (m * B - 1) div K"
      using epoch_count [of m B q K o'] t(3,4,5) Kpos assms(5,6) by simp
    show ?thesis using t(1,2) q assms(5,6) by (simp add: batches_of_def epoch_after_def)
  qed
  have bo: "batches_of rd m s = Some (?blocks m)" for m using run by blast
  have ea: "epoch_after rd m s = Some (epoch s + (m * B - 1) div K)" for m using run by blast
  have cc: "concat (?blocks m) = map (\<lambda>p. d ! (p mod K)) [0..<m * B]" for m
    by (rule concat_blocks)
  have c1: "batches_of rd n s = Some (?blocks n)" by (rule bo)
  have c2: "map_option concat (batches_of rd n s) = Some (map (\<lambda>p. d ! (p mod K)) [0..<n * B])"
    by (simp only: bo cc option.map)
  have c3: "K \<le> n * B \<longrightarrow> map_option (take K \<circ> concat) (batches_of rd n s) = Some d"
  proof
    assume "K \<le> n * B"
    then have "take K (map (\<lambda>p. d ! (p mod K)) [0..<n * B]) = d"
      using first_pass [of d "n * B"] assms(5) by simp
    then show "map_option (take K \<circ> concat) (batches_of rd n s) = Some d"
      by (simp only: bo cc option.map comp_apply)
  qed
  have c4: "epoch_after rd n s = Some (epoch s + (n * B - 1) div K)" by (rule ea)
  have c5: "B dvd K \<and> 1 \<le> n \<longrightarrow>
            epoch_after rd (n + K div B) s = map_option Suc (epoch_after rd n s)"
  proof
    assume h: "B dvd K \<and> 1 \<le> n"
    have "((n + K div B) * B - 1) div K = (n * B - 1) div K + 1"
      using period_divides [of B K n] h assms(7,8) by simp
    then show "epoch_after rd (n + K div B) s = map_option Suc (epoch_after rd n s)"
      by (simp add: ea)
  qed
  have c6: "\<not> B dvd K \<longrightarrow>
            epoch_after rd (K div B) s = Some (epoch s)
            \<and> epoch_after rd (K div B + 1) s = Some (epoch s + 1)
            \<and> map_option last (batches_of rd (K div B + 1) s)
                = Some (drop (K - K mod B) d @ take (B - K mod B) d)"
  proof
    assume nd: "\<not> B dvd K"
    note w = wrap_arith [OF nd assms(7) assms(8)]
    have e1: "epoch_after rd (K div B) s = Some (epoch s)" by (simp only: ea w(4) add_0_right)
    have e2: "epoch_after rd (K div B + 1) s = Some (epoch s + 1)" by (simp only: ea w(5))
    have "last (?blocks (K div B + 1)) = map (\<lambda>i. d ! ((K div B * B + i) mod K)) [0..<B]"
      by simp
    also have "\<dots> = map (\<lambda>i. d ! ((length d - K mod B + i) mod length d)) [0..<B]"
      by (simp only: w(1) assms(5))
    also have "\<dots> = drop (length d - K mod B) d @ take (B - K mod B) d"
      by (rule wrapped_batch) (use w(2,3) assms(5,8) in simp_all)
    finally have "last (?blocks (K div B + 1)) = drop (K - K mod B) d @ take (B - K mod B) d"
      by (simp only: assms(5))
    then have "map_option last (batches_of rd (K div B + 1) s)
                = Some (drop (K - K mod B) d @ take (B - K mod B) d)"
      by (simp only: bo option.map)
    with e1 e2 show "epoch_after rd (K div B) s = Some (epoch s)
            \<and> epoch_after rd (K div B + 1) s = Some (epoch s + 1)
            \<and> map_option last (batches_of rd (K div B + 1) s)
                = Some (drop (K - K mod B) d @ take (B - K mod B) d)" by (intro conjI)
  qed
  from c1 c2 c3 c4 c5 c6 show ?thesis by (intro conjI)
qed

text \<open>
The theorem on a file of three samples read in batches of two (a wrapped second
  batch), and on a file of two samples read one by one.
\<close>

theorem C4_single_file_sequential_stream_witness:
  "batches_of corpus 3
      (loader_init True False 2 None
         \<lparr>dataset_files = [''b.bin''], processed_files = [''b.bin''], data = Some [20, 21, 22]\<rparr>
         \<lparr>dataset_files = [], processed_files = [], data = None\<rparr>)
     = Some [[20, 21], [22, 20], [21, 22]]
   \<and> epoch_after corpus 1
      (loader_init True False 2 None
         \<lparr>dataset_files = [''b.bin''], processed_files = [''b.bin''], data = Some [20, 21, 22]\<rparr>
         \<lparr>dataset_files = [], processed_files = [], data = None\<rparr>) = Some 0
   \<and> epoch_after corpus 2
      (loader_init True False 2 None
         \<lparr>dataset_files = [''b.bin''], processed_files = [''b.bin''], data = Some [20, 21, 22]\<rparr>
         \<lparr>dataset_files = [], processed_files = [], data = None\<rparr>) = Some 1
   \<and> epoch_after corpus (1 + 2)
      (loader_init True False 1 None
         \<lparr>dataset_files = [''a.bin''], processed_files = [''a.bin''], data = Some [10, 11]\<rparr>
         \<lparr>dataset_files = [], processed_files = [], data = None\<rparr>)
     = map_option Suc (epoch_after corpus 1
      (loader_init True False 1 None
         \<lparr>dataset_files = [''a.bin''], processed_files = [''a.bin''], data = Some [10, 11]\<rparr>
         \<lparr>dataset_files = [], processed_files = [], data = None\<rparr>))"
proof -
  let ?val = "\<lparr>dataset_files = [], processed_files = [], data = None :: nat list option\<rparr>"
  let ?sb = "loader_init True False 2 None
         \<lparr>dataset_files = [''b.bin''], processed_files = [''b.bin''], data = Some [20, 21, 22::nat]\<rparr> ?val"
  let ?sa = "loader_init True False 1 None
         \<lparr>dataset_files = [''a.bin''], processed_files = [''a.bin''], data = Some [10, 11::nat]\<rparr> ?val"
  have b: "dataset_seq_train ?sb" "\<not> dataset_buffer ?sb"
    "length (dataset_files (train_dataset ?sb)) = 1"
    "data (train_dataset ?sb) = Some [20, 21, 22]" "length [20, 21, 22::nat] = 3"
    "batch_size ?sb = 2" "0 < (2::nat)" "(2::nat) < 3" "dataset_offset ?sb = 0"
    by (simp_all add: loader_init_def)
  have a: "dataset_seq_train ?sa" "\<not> dataset_buffer ?sa"
    "length (dataset_files (train_dataset ?sa)) = 1"
    "data (train_dataset ?sa) = Some [10, 11]" "length [10, 11::nat] = 2"
    "batch_size ?sa = 1" "0 < (1::nat)" "(1::nat) < 2" "dataset_offset ?sa = 0"
    by (simp_all add: loader_init_def)
  have eb: "epoch ?sb = 0" and ea: "epoch ?sa = 0" by (simp_all add: loader_init_def)
  note tb3 = C4_single_file_sequential_stream [OF b, of corpus 3]
  note tb1 = C4_single_file_sequential_stream [OF b, of corpus 1]
  note ta = C4_single_file_sequential_stream [OF a, of corpus 1]
  have blocks: "map (\<lambda>j. map (\<lambda>i. [20, 21, 22::nat] ! ((j * 2 + i) mod 3)) [0..<2]) [0..<3]
      = [[20, 21], [22, 20], [21, 22]]"
    by code_simp
  have w1: "batches_of corpus 3 ?sb = Some [[20, 21], [22, 20], [21, 22]]"
    using tb3 [THEN conjunct1] by (simp only: blocks)
  have nd: "\<not> (2::nat) dvd 3" by simp
  have dv: "(3::nat) div 2 = 1" by simp
  note c6 = tb1 [THEN conjunct2, THEN conjunct2, THEN conjunct2, THEN conjunct2, THEN conjunct2,
      THEN mp, OF nd]
  have one: "(1::nat) + 1 = 2" "(0::nat) + 1 = 1" by simp_all
  have w2: "epoch_after corpus 1 ?sb = Some 0" "epoch_after corpus 2 ?sb = Some 1"
    using c6 [THEN conjunct1] c6 [THEN conjunct2, THEN conjunct1] by (simp_all only: dv eb one)
  have w3: "epoch_after corpus (1 + 2) ?sa = map_option Suc (epoch_after corpus 1 ?sa)"
    using ta by simp
  from w1 w2 w3 show ?thesis by (intro conjI)
qed

section \<open>Proofs: the prefetch buffer and the validation fallback\<close>

lemma update_buffer_window:
  assumes "data (train_dataset s) = Some d" "0 < batch_size s"
    and "dataset_offset s + batch_size s \<le> length d"
  shows "update_buffer s
       = s\<lparr>buffer := Some (take (batch_size s) (drop (dataset_offset s) d),
                           dataset_offset s + batch_size s)\<rparr>"
proof -
  have "take (batch_size s) (drop (dataset_offset s) d) \<noteq> []" using assms(2,3) by auto
  then have "prepare_samples (map Some (take (batch_size s) (drop (dataset_offset s) d)))
      = Inr (take (batch_size s) (drop (dataset_offset s) d))"
    by (rule prepare_samples_Some)
  then show ?thesis using assms(1) by (simp add: update_buffer_def getitem_slice_def)
qed

lemma get_batch_from_buffer_take:
  assumes "buffer s = Some (batch, off)" "buffer_thread s \<noteq> Some Alive"
  shows "get_batch_from_buffer s = Inr (batch, reload_buffer (s\<lparr>dataset_offset := off\<rparr>))"
  using assms by (simp add: get_batch_from_buffer_def)

lemma reload_buffer_thread:
  "buffer_thread (reload_buffer s)
     = (if dataset_offset s + batch_size s \<le> len (train_dataset s) then Some Alive else None)"
  by (simp add: reload_buffer_def Let_def)

lemma prepare_samples_Inr:
  "prepare_samples samples = Inr batch \<Longrightarrow> samples = map Some batch \<and> batch \<noteq> []"
proof -
  assume a: "prepare_samples samples = Inr batch"
  then have n: "samples \<noteq> []" "None \<notin> set samples" "batch = map the samples"
    by (auto simp: prepare_samples_def split: if_splits)
  have "map Some (map the samples) = samples"
    using n(2) by (induction samples) auto
  then show ?thesis using n by simp
qed

lemma fetch_samples_length:
  "fetch_samples rd n s acc = Inr (samples, s') \<Longrightarrow> length samples = length acc + n"
proof (induction n arbitrary: s acc)
  case 0
  then show ?case by simp
next
  case (Suc n)
  from Suc.prems obtain s1 where
    "fetch_samples rd n (s1\<lparr>dataset_offset := dataset_offset s1 + 1\<rparr>)
       (acc @ [getitem (train_dataset s1) (dataset_offset s1)]) = Inr (samples, s')"
    by (auto split: sum.splits)
  from Suc.IH [OF this] show ?case by simp
qed

lemma fetch_samples_keeps_acc:
  "fetch_samples rd n s acc = Inr (samples, s') \<Longrightarrow> take (length acc) samples = acc"
proof (induction n arbitrary: s acc)
  case 0
  then show ?case by simp
next
  case (Suc n)
  from Suc.prems obtain s1 where
    "fetch_samples rd n (s1\<lparr>dataset_offset := dataset_offset s1 + 1\<rparr>)
       (acc @ [getitem (train_dataset s1) (dataset_offset s1)]) = Inr (samples, s')"
    by (auto split: sum.splits)
  from Suc.IH [OF this]
  have t: "take (Suc (length acc)) samples = acc @ [getitem (train_dataset s1) (dataset_offset s1)]"
    by simp
  have "take (length acc) samples = take (length acc) (take (Suc (length acc)) samples)"
    by (simp add: min_def)
  also have "\<dots> = acc" by (simp only: t) simp
  finally show ?case .
qed

lemma fetch_samples_rest_of_file:
  assumes "data (train_dataset s) = Some d"
  shows "fetch_samples rd n s acc = Inr (samples, s') \<Longrightarrow>
    take (length acc + min n (length d - dataset_offset s)) samples
      = acc @ map Some (take (min n (length d - dataset_offset s)) (drop (dataset_offset s) d))"
  using assms
proof (induction n arbitrary: s acc)
  case 0
  then show ?case by simp
next
  case (Suc n)
  let ?o = "dataset_offset s"
  show ?case
  proof (cases "?o < length d")
    case False
    then have "length d - ?o = 0" by simp
    then show ?thesis using fetch_samples_keeps_acc [OF Suc.prems(1)] by simp
  next
    case True
    let ?s2 = "s\<lparr>dataset_offset := ?o + 1\<rparr>"
    have g: "getitem (train_dataset s) ?o = Some (d ! ?o)"
      using getitem_Some [OF Suc.prems(2) True] .
    have step: "fetch_samples rd n ?s2 (acc @ [Some (d ! ?o)]) = Inr (samples, s')"
      using Suc.prems(1) True g by (simp add: len_Some [OF Suc.prems(2)])
    have d2: "data (train_dataset ?s2) = Some d" using Suc.prems(2) by simp
    from Suc.IH [OF step d2]
    have ih: "take (length acc + 1 + min n (length d - (?o + 1))) samples
        = acc @ [Some (d ! ?o)] @ map Some (take (min n (length d - (?o + 1))) (drop (?o + 1) d))"
      by simp
    have m: "min (Suc n) (length d - ?o) = 1 + min n (length d - (?o + 1))"
      using True by simp
    have w: "take (1 + min n (length d - (?o + 1))) (drop ?o d)
        = d ! ?o # take (min n (length d - (?o + 1))) (drop (?o + 1) d)"
      using Cons_nth_drop_Suc [OF True] by (metis Suc_eq_plus1 plus_1_eq_Suc take_Suc_Cons)
    show ?thesis unfolding m w using ih by (simp add: add.assoc)
  qed
qed

lemma get_batch_sync_across_boundary:
  assumes d: "data (train_dataset s) = Some d"
    and nofit: "\<not> dataset_offset s + batch_size s \<le> length d"
    and r: "get_batch_sync rd s = Inr (batch, s')"
  shows "length batch = batch_size s"
    and "take (length d - dataset_offset s) batch = drop (dataset_offset s) d"
    and "buffer s' = None"
proof -
  from r nofit d obtain samples s1 where
    f: "fetch_samples rd (batch_size s) s [] = Inr (samples, s1)"
    and p: "prepare_samples samples = Inr batch" and s': "s' = reload_buffer s1"
    by (auto simp: get_batch_sync_def len_Some Let_def split: sum.splits)
  have sm: "samples = map Some batch" using prepare_samples_Inr [OF p] by simp
  show "length batch = batch_size s" using fetch_samples_length [OF f] sm by simp
  show "buffer s' = None" using s' by (simp add: reload_buffer_fields)
  have mn: "min (batch_size s) (length d - dataset_offset s) = length d - dataset_offset s"
    using nofit by simp
  have "take (length d - dataset_offset s) samples
      = map Some (take (length d - dataset_offset s) (drop (dataset_offset s) d))"
    using fetch_samples_rest_of_file [OF d f] by (simp add: mn)
  then have "map Some (take (length d - dataset_offset s) batch) = map Some (drop (dataset_offset s) d)"
    by (simp add: sm take_map)
  then show "take (length d - dataset_offset s) batch = drop (dataset_offset s) d"
    by (simp add: inj_map_eq_map)
qed

lemma get_batch_sync_single_file:
  assumes single: "length (dataset_files (train_dataset s)) \<le> 1"
    and d: "data (train_dataset s) = Some d" and K: "0 < length d"
    and B: "0 < batch_size s" and off: "dataset_offset s \<le> length d"
    and nofit: "\<not> dataset_offset s + batch_size s \<le> length d"
  shows "\<exists>q o'. get_batch_sync rd s
        = Inr (map (\<lambda>i. d ! ((dataset_offset s + i) mod length d)) [0..<batch_size s],
               reload_buffer (s\<lparr>dataset_offset := o', epoch := epoch s + q\<rparr>))
      \<and> o' \<le> length d \<and> 0 < o'
      \<and> dataset_offset s + batch_size s = q * length d + o'"
proof -
  let ?B = "batch_size s" and ?o = "dataset_offset s" and ?K = "length d"
  let ?batch = "map (\<lambda>i. d ! ((?o + i) mod ?K)) [0..<?B]"
  have ne: "?batch \<noteq> []" using B by simp
  have prep: "prepare_samples (map (\<lambda>i. Some (d ! ((?o + i) mod ?K))) [0..<?B]) = Inr ?batch"
    using prepare_samples_Some [OF ne] by (simp add: comp_def)
  from fetch_samples_single_file [OF single d K off, of rd ?B "[]"]
  obtain q o' where f: "fetch_samples rd ?B s []
      = Inr ([] @ map (\<lambda>i. Some (d ! ((?o + i) mod ?K))) [0..<?B],
             s\<lparr>dataset_offset := o', epoch := epoch s + q\<rparr>)
    \<and> o' \<le> ?K \<and> (0 < ?o + ?B \<longrightarrow> 0 < o') \<and> ?o + ?B = q * ?K + o'"
    by (elim exE)
  then have "get_batch_sync rd s
      = Inr (?batch, reload_buffer (s\<lparr>dataset_offset := o', epoch := epoch s + q\<rparr>))"
    using nofit d prep by (simp add: get_batch_sync_def len_Some Let_def)
  then have "get_batch_sync rd s
      = Inr (?batch, reload_buffer (s\<lparr>dataset_offset := o', epoch := epoch s + q\<rparr>))
    \<and> o' \<le> ?K \<and> 0 < o' \<and> ?o + ?B = q * ?K + o'"
    using f B by simp
  then show ?thesis by blast
qed

text \<open>
Claim C9. With a file of samples \<open>d\<close> loaded and a positive batch size \<open>B\<close>: the worker
  fills the slot with the batch of the window \<open>[o, o + B)\<close> at the cursor \<open>o\<close> and with the
  offset \<open>o + B\<close> (when the window fits into the file). When the consumer takes a filled
  slot \<open>(batch, off)\<close> whose worker has returned, it gets that batch (this is what
  \<^verbatim>\<open>get_batch\<close> returns in sequential training with the buffer enabled), the cursor
  becomes \<open>off\<close> and the slot is emptied. A new worker is started if and only if
  \<open>off + B\<close> does not exceed the number of samples of the file; then it fills the slot
  with the window at \<open>off\<close> and the offset \<open>off + B\<close>, and the next \<^verbatim>\<open>get_batch\<close> call hands
  out that window and moves the cursor to \<open>off + B\<close>. Otherwise there is no worker and the
  slot stays empty, and the next \<^verbatim>\<open>get_batch\<close> call assembles its batch itself
  (\<^verbatim>\<open>get_batch_sync\<close>): whenever it returns, the batch has \<open>B\<close> samples, begins with the
  samples of the file left from \<open>off\<close> on, and the slot is empty again; and over a
  single-file catalog it does return, with the \<open>B\<close> samples read cyclically from \<open>off\<close>, the
  cursor inside the file and the epoch advanced by the number of wraps.
\<close>

theorem C9_prefetch_slot_handoff:
  assumes "data (train_dataset s) = Some d" and "batch_size s = B" and "0 < B"
  shows "(dataset_offset s + B \<le> length d \<longrightarrow>
            update_buffer s
              = s\<lparr>buffer := Some (take B (drop (dataset_offset s) d), dataset_offset s + B)\<rparr>)
       \<and> (buffer s = Some (batch, off) \<and> buffer_thread s \<noteq> Some Alive \<longrightarrow>
            (\<exists>s'. get_batch_from_buffer s = Inr (batch, s')
               \<and> (dataset_seq_train s \<and> dataset_buffer s \<longrightarrow>
                    get_batch rd ''train'' False idx s = Inr (batch, s'))
               \<and> dataset_offset s' = off \<and> buffer s' = None
               \<and> (buffer_thread s' = Some Alive \<longleftrightarrow> off + B \<le> length d)
               \<and> (buffer_thread s' = None \<longleftrightarrow> \<not> off + B \<le> length d)
               \<and> (off + B \<le> length d \<longrightarrow>
                    buffer (worker_run s') = Some (take B (drop off d), off + B)
                    \<and> buffer_thread (worker_run s') = Some Finished
                    \<and> dataset_offset (worker_run s') = off
                    \<and> (dataset_seq_train s \<and> dataset_buffer s \<longrightarrow>
                         (\<exists>s2. get_batch rd ''train'' False idx (worker_run s')
                                  = Inr (take B (drop off d), s2)
                             \<and> dataset_offset s2 = off + B \<and> buffer s2 = None)))
               \<and> (\<not> off + B \<le> length d \<longrightarrow>
                    worker_run s' = s'
                    \<and> (dataset_seq_train s \<longrightarrow>
                         get_batch rd ''train'' False idx s' = get_batch_sync rd s'
                         \<and> (\<forall>batch' s2. get_batch rd ''train'' False idx s' = Inr (batch', s2) \<longrightarrow>
                               length batch' = B
                               \<and> take (length d - off) batch' = drop off d
                               \<and> buffer s2 = None)
                         \<and> (length (dataset_files (train_dataset s)) \<le> 1 \<and> d \<noteq> []
                              \<and> off \<le> length d \<longrightarrow>
                            (\<exists>s2 q. get_batch rd ''train'' False idx s'
                                  = Inr (map (\<lambda>i. d ! ((off + i) mod length d)) [0..<B], s2)
                               \<and> buffer s2 = None
                               \<and> epoch s2 = epoch s + q
                               \<and> 0 < dataset_offset s2 \<and> dataset_offset s2 \<le> length d
                               \<and> off + B = q * length d + dataset_offset s2))))))"
proof (intro conjI impI)
  assume "dataset_offset s + B \<le> length d"
  then show "update_buffer s
      = s\<lparr>buffer := Some (take B (drop (dataset_offset s) d), dataset_offset s + B)\<rparr>"
    using update_buffer_window [of s d] assms by simp
next
  assume h: "buffer s = Some (batch, off) \<and> buffer_thread s \<noteq> Some Alive"
  let ?s' = "reload_buffer (s\<lparr>dataset_offset := off\<rparr>)"
  let ?W = "take B (drop off d)"
  have g: "get_batch_from_buffer s = Inr (batch, ?s')"
    using h by (simp add: get_batch_from_buffer_take)
  have gb: "dataset_seq_train s \<and> dataset_buffer s \<longrightarrow>
              get_batch rd ''train'' False idx s = Inr (batch, ?s')"
    using h g by (simp add: get_batch_def)
  have f: "dataset_offset ?s' = off" "buffer ?s' = None" "batch_size ?s' = B"
    "data (train_dataset ?s') = Some d" "dataset_seq_train ?s' = dataset_seq_train s"
    "dataset_buffer ?s' = dataset_buffer s" "epoch ?s' = epoch s"
    "train_dataset ?s' = train_dataset s"
    using assms by (simp_all add: reload_buffer_fields)
  have th: "buffer_thread ?s' = (if off + B \<le> length d then Some Alive else None)"
    using assms by (simp add: reload_buffer_thread len_Some)
  have t1: "buffer_thread ?s' = Some Alive \<longleftrightarrow> off + B \<le> length d" using th by simp
  have t2: "buffer_thread ?s' = None \<longleftrightarrow> \<not> off + B \<le> length d" using th by simp
  have fit: "off + B \<le> length d \<longrightarrow>
               buffer (worker_run ?s') = Some (?W, off + B)
               \<and> buffer_thread (worker_run ?s') = Some Finished
               \<and> dataset_offset (worker_run ?s') = off
               \<and> (dataset_seq_train s \<and> dataset_buffer s \<longrightarrow>
                    (\<exists>s2. get_batch rd ''train'' False idx (worker_run ?s') = Inr (?W, s2)
                        \<and> dataset_offset s2 = off + B \<and> buffer s2 = None))"
  proof
    assume le: "off + B \<le> length d"
    have u: "update_buffer ?s' = ?s'\<lparr>buffer := Some (?W, off + B)\<rparr>"
      using update_buffer_window [of ?s' d] f assms(3) le by simp
    have w: "worker_run ?s' = ?s'\<lparr>buffer := Some (?W, off + B), buffer_thread := Some Finished\<rparr>"
      using th le by (simp add: worker_run_def u)
    have wf: "buffer (worker_run ?s') = Some (?W, off + B)"
      "buffer_thread (worker_run ?s') = Some Finished"
      "dataset_offset (worker_run ?s') = off"
      "dataset_seq_train (worker_run ?s') = dataset_seq_train s"
      "dataset_buffer (worker_run ?s') = dataset_buffer s"
      unfolding w using f by simp_all
    have na: "buffer_thread (worker_run ?s') \<noteq> Some Alive" using wf(2) by simp
    have tk: "get_batch_from_buffer (worker_run ?s')
        = Inr (?W, reload_buffer ((worker_run ?s')\<lparr>dataset_offset := off + B\<rparr>))"
      by (rule get_batch_from_buffer_take [OF wf(1) na])
    have nx: "dataset_seq_train s \<and> dataset_buffer s \<longrightarrow>
        (\<exists>s2. get_batch rd ''train'' False idx (worker_run ?s') = Inr (?W, s2)
            \<and> dataset_offset s2 = off + B \<and> buffer s2 = None)"
    proof
      assume fl: "dataset_seq_train s \<and> dataset_buffer s"
      have "get_batch rd ''train'' False idx (worker_run ?s')
          = get_batch_from_buffer (worker_run ?s')"
        using fl wf by (simp add: get_batch_def)
      then have next_slot: "get_batch rd ''train'' False idx (worker_run ?s')
            = Inr (?W, reload_buffer ((worker_run ?s')\<lparr>dataset_offset := off + B\<rparr>))
          \<and> dataset_offset (reload_buffer ((worker_run ?s')\<lparr>dataset_offset := off + B\<rparr>)) = off + B
          \<and> buffer (reload_buffer ((worker_run ?s')\<lparr>dataset_offset := off + B\<rparr>)) = None"
        using tk by (simp add: reload_buffer_fields)
      show "\<exists>s2. get_batch rd ''train'' False idx (worker_run ?s') = Inr (?W, s2)
            \<and> dataset_offset s2 = off + B \<and> buffer s2 = None"
        by (rule exI) (rule next_slot)
    qed
    from wf(1,2,3) nx
    show "buffer (worker_run ?s') = Some (?W, off + B)
               \<and> buffer_thread (worker_run ?s') = Some Finished
               \<and> dataset_offset (worker_run ?s') = off
               \<and> (dataset_seq_train s \<and> dataset_buffer s \<longrightarrow>
                    (\<exists>s2. get_batch rd ''train'' False idx (worker_run ?s') = Inr (?W, s2)
                        \<and> dataset_offset s2 = off + B \<and> buffer s2 = None))"
      by (intro conjI)
  qed
  have nofit: "\<not> off + B \<le> length d \<longrightarrow>
      worker_run ?s' = ?s'
      \<and> (dataset_seq_train s \<longrightarrow>
           get_batch rd ''train'' False idx ?s' = get_batch_sync rd ?s'
           \<and> (\<forall>batch' s2. get_batch rd ''train'' False idx ?s' = Inr (batch', s2) \<longrightarrow>
                 length batch' = B
                 \<and> take (length d - off) batch' = drop off d
                 \<and> buffer s2 = None)
           \<and> (length (dataset_files (train_dataset s)) \<le> 1 \<and> d \<noteq> [] \<and> off \<le> length d \<longrightarrow>
              (\<exists>s2 q. get_batch rd ''train'' False idx ?s'
                    = Inr (map (\<lambda>i. d ! ((off + i) mod length d)) [0..<B], s2)
                 \<and> buffer s2 = None
                 \<and> epoch s2 = epoch s + q
                 \<and> 0 < dataset_offset s2 \<and> dataset_offset s2 \<le> length d
                 \<and> off + B = q * length d + dataset_offset s2)))"
  proof
    assume nf: "\<not> off + B \<le> length d"
    have nf': "\<not> dataset_offset ?s' + batch_size ?s' \<le> length d" using nf f(1,3) by simp
    have wr: "worker_run ?s' = ?s'" using th nf by (simp add: worker_run_def)
    have sync: "dataset_seq_train s \<longrightarrow>
           get_batch rd ''train'' False idx ?s' = get_batch_sync rd ?s'
           \<and> (\<forall>batch' s2. get_batch rd ''train'' False idx ?s' = Inr (batch', s2) \<longrightarrow>
                 length batch' = B
                 \<and> take (length d - off) batch' = drop off d
                 \<and> buffer s2 = None)
           \<and> (length (dataset_files (train_dataset s)) \<le> 1 \<and> d \<noteq> [] \<and> off \<le> length d \<longrightarrow>
              (\<exists>s2 q. get_batch rd ''train'' False idx ?s'
                    = Inr (map (\<lambda>i. d ! ((off + i) mod length d)) [0..<B], s2)
                 \<and> buffer s2 = None
                 \<and> epoch s2 = epoch s + q
                 \<and> 0 < dataset_offset s2 \<and> dataset_offset s2 \<le> length d
                 \<and> off + B = q * length d + dataset_offset s2))"
    proof
      assume seq: "dataset_seq_train s"
      have e: "get_batch rd ''train'' False idx ?s' = get_batch_sync rd ?s'"
        using seq f(2,5) by (simp add: get_batch_def)
      have content: "\<forall>batch' s2. get_batch rd ''train'' False idx ?s' = Inr (batch', s2) \<longrightarrow>
                 length batch' = B
                 \<and> take (length d - off) batch' = drop off d
                 \<and> buffer s2 = None"
      proof (intro allI impI)
        fix batch' s2
        assume "get_batch rd ''train'' False idx ?s' = Inr (batch', s2)"
        then have r: "get_batch_sync rd ?s' = Inr (batch', s2)" using e by simp
        from get_batch_sync_across_boundary [OF f(4) nf' r]
        have "length batch' = batch_size ?s'"
          "take (length d - dataset_offset ?s') batch' = drop (dataset_offset ?s') d"
          "buffer s2 = None" .
        then show "length batch' = B \<and> take (length d - off) batch' = drop off d \<and> buffer s2 = None"
          using f(1,3) by simp
      qed
      have single: "length (dataset_files (train_dataset s)) \<le> 1 \<and> d \<noteq> [] \<and> off \<le> length d \<longrightarrow>
              (\<exists>s2 q. get_batch rd ''train'' False idx ?s'
                    = Inr (map (\<lambda>i. d ! ((off + i) mod length d)) [0..<B], s2)
                 \<and> buffer s2 = None
                 \<and> epoch s2 = epoch s + q
                 \<and> 0 < dataset_offset s2 \<and> dataset_offset s2 \<le> length d
                 \<and> off + B = q * length d + dataset_offset s2)"
      proof
        assume a: "length (dataset_files (train_dataset s)) \<le> 1 \<and> d \<noteq> [] \<and> off \<le> length d"
        have p1: "length (dataset_files (train_dataset ?s')) \<le> 1" using a f(8) by simp
        have p2: "0 < length d" using a by simp
        have p3: "0 < batch_size ?s'" using assms(3) f(3) by simp
        have p4: "dataset_offset ?s' \<le> length d" using a f(1) by simp
        from get_batch_sync_single_file [OF p1 f(4) p2 p3 p4 nf', of rd]
        obtain q o' where r: "get_batch_sync rd ?s'
            = Inr (map (\<lambda>i. d ! ((dataset_offset ?s' + i) mod length d)) [0..<batch_size ?s'],
                   reload_buffer (?s'\<lparr>dataset_offset := o', epoch := epoch ?s' + q\<rparr>))"
          and o: "o' \<le> length d" "0 < o'"
          and sm: "dataset_offset ?s' + batch_size ?s' = q * length d + o'"
          by (elim exE conjE)
        let ?s2 = "reload_buffer (?s'\<lparr>dataset_offset := o', epoch := epoch ?s' + q\<rparr>)"
        have s2: "buffer ?s2 = None" "epoch ?s2 = epoch s + q" "dataset_offset ?s2 = o'"
          using f(7) by (simp_all add: reload_buffer_fields)
        have wrapped: "get_batch rd ''train'' False idx ?s'
              = Inr (map (\<lambda>i. d ! ((off + i) mod length d)) [0..<B], ?s2)
            \<and> buffer ?s2 = None
            \<and> epoch ?s2 = epoch s + q
            \<and> 0 < dataset_offset ?s2 \<and> dataset_offset ?s2 \<le> length d
            \<and> off + B = q * length d + dataset_offset ?s2"
          using e r o sm s2 f(1,3) by simp
        show "\<exists>s2 q. get_batch rd ''train'' False idx ?s'
                    = Inr (map (\<lambda>i. d ! ((off + i) mod length d)) [0..<B], s2)
                 \<and> buffer s2 = None
                 \<and> epoch s2 = epoch s + q
                 \<and> 0 < dataset_offset s2 \<and> dataset_offset s2 \<le> length d
                 \<and> off + B = q * length d + dataset_offset s2"
          by (rule exI, rule exI) (rule wrapped)
      qed
      from e content single
      show "get_batch rd ''train'' False idx ?s' = get_batch_sync rd ?s'
           \<and> (\<forall>batch' s2. get_batch rd ''train'' False idx ?s' = Inr (batch', s2) \<longrightarrow>
                 length batch' = B
                 \<and> take (length d - off) batch' = drop off d
                 \<and> buffer s2 = None)
           \<and> (length (dataset_files (train_dataset s)) \<le> 1 \<and> d \<noteq> [] \<and> off \<le> length d \<longrightarrow>
              (\<exists>s2 q. get_batch rd ''train'' False idx ?s'
                    = Inr (map (\<lambda>i. d ! ((off + i) mod length d)) [0..<B], s2)
                 \<and> buffer s2 = None
                 \<and> epoch s2 = epoch s + q
                 \<and> 0 < dataset_offset s2 \<and> dataset_offset s2 \<le> length d
                 \<and> off + B = q * length d + dataset_offset s2))"
        by (intro conjI)
    qed
    from wr sync
    show "worker_run ?s' = ?s'
      \<and> (dataset_seq_train s \<longrightarrow>
           get_batch rd ''train'' False idx ?s' = get_batch_sync rd ?s'
           \<and> (\<forall>batch' s2. get_batch rd ''train'' False idx ?s' = Inr (batch', s2) \<longrightarrow>
                 length batch' = B
                 \<and> take (length d - off) batch' = drop off d
                 \<and> buffer s2 = None)
           \<and> (length (dataset_files (train_dataset s)) \<le> 1 \<and> d \<noteq> [] \<and> off \<le> length d \<longrightarrow>
              (\<exists>s2 q. get_batch rd ''train'' False idx ?s'
                    = Inr (map (\<lambda>i. d ! ((off + i) mod length d)) [0..<B], s2)
                 \<and> buffer s2 = None
                 \<and> epoch s2 = epoch s + q
                 \<and> 0 < dataset_offset s2 \<and> dataset_offset s2 \<le> length d
                 \<and> off + B = q * length d + dataset_offset s2)))"
      by (intro conjI)
  qed
  from g gb f(1,2) t1 t2 fit nofit
  have handoff: "get_batch_from_buffer s = Inr (batch, ?s')
               \<and> (dataset_seq_train s \<and> dataset_buffer s \<longrightarrow>
                    get_batch rd ''train'' False idx s = Inr (batch, ?s'))
               \<and> dataset_offset ?s' = off \<and> buffer ?s' = None
               \<and> (buffer_thread ?s' = Some Alive \<longleftrightarrow> off + B \<le> length d)
               \<and> (buffer_thread ?s' = None \<longleftrightarrow> \<not> off + B \<le> length d)
               \<and> (off + B \<le> length d \<longrightarrow>
                    buffer (worker_run ?s') = Some (take B (drop off d), off + B)
                    \<and> buffer_thread (worker_run ?s') = Some Finished
                    \<and> dataset_offset (worker_run ?s') = off
                    \<and> (dataset_seq_train s \<and> dataset_buffer s \<longrightarrow>
                         (\<exists>s2. get_batch rd ''train'' False idx (worker_run ?s')
                                  = Inr (take B (drop off d), s2)
                             \<and> dataset_offset s2 = off + B \<and> buffer s2 = None)))
               \<and> (\<not> off + B \<le> length d \<longrightarrow>
                    worker_run ?s' = ?s'
                    \<and> (dataset_seq_train s \<longrightarrow>
                         get_batch rd ''train'' False idx ?s' = get_batch_sync rd ?s'
                         \<and> (\<forall>batch' s2. get_batch rd ''train'' False idx ?s' = Inr (batch', s2) \<longrightarrow>
                               length batch' = B
                               \<and> take (length d - off) batch' = drop off d
                               \<and> buffer s2 = None)
                         \<and> (length (dataset_files (train_dataset s)) \<le> 1 \<and> d \<noteq> []
                              \<and> off \<le> length d \<longrightarrow>
                            (\<exists>s2 q. get_batch rd ''train'' False idx ?s'
                                  = Inr (map (\<lambda>i. d ! ((off + i) mod length d)) [0..<B], s2)
                               \<and> buffer s2 = None
                               \<and> epoch s2 = epoch s + q
                               \<and> 0 < dataset_offset s2 \<and> dataset_offset s2 \<le> length d
                               \<and> off + B = q * length d + dataset_offset s2))))"
    by (intro conjI)
  show "\<exists>s'. get_batch_from_buffer s = Inr (batch, s')
               \<and> (dataset_seq_train s \<and> dataset_buffer s \<longrightarrow>
                    get_batch rd ''train'' False idx s = Inr (batch, s'))
               \<and> dataset_offset s' = off \<and> buffer s' = None
               \<and> (buffer_thread s' = Some Alive \<longleftrightarrow> off + B \<le> length d)
               \<and> (buffer_thread s' = None \<longleftrightarrow> \<not> off + B \<le> length d)
               \<and> (off + B \<le> length d \<longrightarrow>
                    buffer (worker_run s') = Some (take B (drop off d), off + B)
                    \<and> buffer_thread (worker_run s') = Some Finished
                    \<and> dataset_offset (worker_run s') = off
                    \<and> (dataset_seq_train s \<and> dataset_buffer s \<longrightarrow>
                         (\<exists>s2. get_batch rd ''train'' False idx (worker_run s')
                                  = Inr (take B (drop off d), s2)
                             \<and> dataset_offset s2 = off + B \<and> buffer s2 = None)))
               \<and> (\<not> off + B \<le> length d \<longrightarrow>
                    worker_run s' = s'
                    \<and> (dataset_seq_train s \<longrightarrow>
                         get_batch rd ''train'' False idx s' = get_batch_sync rd s'
                         \<and> (\<forall>batch' s2. get_batch rd ''train'' False idx s' = Inr (batch', s2) \<longrightarrow>
                               length batch' = B
                               \<and> take (length d - off) batch' = drop off d
                               \<and> buffer s2 = None)
                         \<and> (length (dataset_files (train_dataset s)) \<le> 1 \<and> d \<noteq> []
                              \<and> off \<le> length d \<longrightarrow>
                            (\<exists>s2 q. get_batch rd ''train'' False idx s'
                                  = Inr (map (\<lambda>i. d ! ((off + i) mod length d)) [0..<B], s2)
                               \<and> buffer s2 = None
                               \<and> epoch s2 = epoch s + q
                               \<and> 0 < dataset_offset s2 \<and> dataset_offset s2 \<le> length d
                               \<and> off + B = q * length d + dataset_offset s2))))"
    by (rule exI) (rule handoff)
qed

text \<open>
The theorem on a file of three samples and batches of one sample: filling the slot at
  offset 0; taking a slot in the middle of the file, after which the worker prefetches
  the sample at offset 1 and the next call hands it out; and taking the slot of the last
  sample, after which no worker runs and the next call wraps to the first sample of the
  file, in epoch 1.
\<close>

theorem C9_prefetch_slot_handoff_witness:
  "update_buffer
      (loader_init True True 1 None
         \<lparr>dataset_files = [''b.bin''], processed_files = [''b.bin''], data = Some [20, 21, 22 :: nat]\<rparr>
         \<lparr>dataset_files = [], processed_files = [], data = None\<rparr>)
     = (loader_init True True 1 None
         \<lparr>dataset_files = [''b.bin''], processed_files = [''b.bin''], data = Some [20, 21, 22]\<rparr>
         \<lparr>dataset_files = [], processed_files = [], data = None\<rparr>)\<lparr>buffer := Some ([20], 1)\<rparr>
   \<and> (\<exists>s'. get_batch corpus ''train'' False []
          ((loader_init True True 1 None
             \<lparr>dataset_files = [''b.bin''], processed_files = [''b.bin''], data = Some [20, 21, 22]\<rparr>
             \<lparr>dataset_files = [], processed_files = [], data = None\<rparr>)
           \<lparr>buffer := Some ([20], 1), buffer_thread := Some Finished\<rparr>) = Inr ([20], s')
        \<and> dataset_offset s' = 1 \<and> buffer s' = None \<and> buffer_thread s' = Some Alive
        \<and> buffer (worker_run s') = Some ([21], 2)
        \<and> (\<exists>s2. get_batch corpus ''train'' False [] (worker_run s') = Inr ([21], s2)
              \<and> dataset_offset s2 = 2 \<and> buffer s2 = None))
   \<and> (\<exists>s'. get_batch corpus ''train'' False []
          ((loader_init True True 1 None
             \<lparr>dataset_files = [''b.bin''], processed_files = [''b.bin''], data = Some [20, 21, 22]\<rparr>
             \<lparr>dataset_files = [], processed_files = [], data = None\<rparr>)
           \<lparr>dataset_offset := 2, buffer := Some ([22], 3), buffer_thread := Some Finished\<rparr>)
          = Inr ([22], s')
        \<and> dataset_offset s' = 3 \<and> buffer s' = None \<and> buffer_thread s' = None
        \<and> worker_run s' = s'
        \<and> (\<exists>s2. get_batch corpus ''train'' False [] s' = Inr ([20], s2)
              \<and> dataset_offset s2 = 1 \<and> epoch s2 = 1 \<and> buffer s2 = None))"
proof -
  let ?val = "\<lparr>dataset_files = [], processed_files = [], data = None :: nat list option\<rparr>"
  let ?init = "loader_init True True 1 None
         \<lparr>dataset_files = [''b.bin''], processed_files = [''b.bin''], data = Some [20, 21, 22 :: nat]\<rparr> ?val"
  let ?sa = "?init\<lparr>buffer := Some ([20], 1), buffer_thread := Some Finished\<rparr>"
  let ?sb = "?init\<lparr>dataset_offset := 2, buffer := Some ([22], 3), buffer_thread := Some Finished\<rparr>"
  have i: "data (train_dataset ?init) = Some [20, 21, 22]" "batch_size ?init = 1" "0 < (1::nat)"
    by (simp_all add: loader_init_def)
  have a: "data (train_dataset ?sa) = Some [20, 21, 22]" "batch_size ?sa = 1" "0 < (1::nat)"
    by (simp_all add: loader_init_def)
  have b: "data (train_dataset ?sb) = Some [20, 21, 22]" "batch_size ?sb = 1" "0 < (1::nat)"
    by (simp_all add: loader_init_def)
  have oi: "dataset_offset ?init = 0" by (simp add: loader_init_def)
  have w1: "update_buffer ?init = ?init\<lparr>buffer := Some ([20], 1)\<rparr>"
    using C9_prefetch_slot_handoff [OF i, of "[]" 0 corpus "[]", THEN conjunct1] oi by simp
  note ta = C9_prefetch_slot_handoff [OF a, of "[20]" 1 corpus "[]", THEN conjunct2, THEN mp]
  have ha: "buffer ?sa = Some ([20], 1) \<and> buffer_thread ?sa \<noteq> Some Alive" by simp
  have fa: "dataset_seq_train ?sa \<and> dataset_buffer ?sa" by (simp add: loader_init_def)
  from ta [OF ha] obtain s' where sa:
    "dataset_seq_train ?sa \<and> dataset_buffer ?sa \<longrightarrow>
       get_batch corpus ''train'' False [] ?sa = Inr ([20], s')"
    "dataset_offset s' = 1" "buffer s' = None"
    "buffer_thread s' = Some Alive \<longleftrightarrow> 1 + 1 \<le> length [20, 21, 22::nat]"
    and fit: "1 + 1 \<le> length [20, 21, 22::nat] \<longrightarrow>
       buffer (worker_run s') = Some (take 1 (drop 1 [20, 21, 22]), 1 + 1)
       \<and> buffer_thread (worker_run s') = Some Finished \<and> dataset_offset (worker_run s') = 1
       \<and> (dataset_seq_train ?sa \<and> dataset_buffer ?sa \<longrightarrow>
            (\<exists>s2. get_batch corpus ''train'' False [] (worker_run s')
                     = Inr (take 1 (drop 1 [20, 21, 22]), s2)
                \<and> dataset_offset s2 = 1 + 1 \<and> buffer s2 = None))"
    by (elim exE conjE)
  have le: "1 + 1 \<le> length [20, 21, 22::nat]" by simp
  note fit1 = fit [THEN mp, OF le]
  have wk: "buffer (worker_run s') = Some ([21], 2)" using fit1 by simp
  from fit1 fa obtain s2 where nx:
    "get_batch corpus ''train'' False [] (worker_run s') = Inr (take 1 (drop 1 [20, 21, 22]), s2)"
    "dataset_offset s2 = 1 + 1" "buffer s2 = None"
    by blast
  have nx': "\<exists>s2. get_batch corpus ''train'' False [] (worker_run s') = Inr ([21], s2)
              \<and> dataset_offset s2 = 2 \<and> buffer s2 = None"
    using nx by (intro exI [of _ s2]) simp
  have w2: "\<exists>s'. get_batch corpus ''train'' False [] ?sa = Inr ([20], s')
        \<and> dataset_offset s' = 1 \<and> buffer s' = None \<and> buffer_thread s' = Some Alive
        \<and> buffer (worker_run s') = Some ([21], 2)
        \<and> (\<exists>s2. get_batch corpus ''train'' False [] (worker_run s') = Inr ([21], s2)
              \<and> dataset_offset s2 = 2 \<and> buffer s2 = None)"
    using sa fa wk nx' by (intro exI [of _ s']) simp
  note tb = C9_prefetch_slot_handoff [OF b, of "[22]" 3 corpus "[]", THEN conjunct2, THEN mp]
  have hb: "buffer ?sb = Some ([22], 3) \<and> buffer_thread ?sb \<noteq> Some Alive" by simp
  have fb: "dataset_seq_train ?sb \<and> dataset_buffer ?sb" by (simp add: loader_init_def)
  have seqb: "dataset_seq_train ?sb" by (simp add: loader_init_def)
  from tb [OF hb] obtain s'' where sb:
    "dataset_seq_train ?sb \<and> dataset_buffer ?sb \<longrightarrow>
       get_batch corpus ''train'' False [] ?sb = Inr ([22], s'')"
    "dataset_offset s'' = 3" "buffer s'' = None"
    "buffer_thread s'' = None \<longleftrightarrow> \<not> 3 + 1 \<le> length [20, 21, 22::nat]"
    and nofit: "\<not> 3 + 1 \<le> length [20, 21, 22::nat] \<longrightarrow>
       worker_run s'' = s''
       \<and> (dataset_seq_train ?sb \<longrightarrow>
            get_batch corpus ''train'' False [] s'' = get_batch_sync corpus s''
            \<and> (\<forall>batch' s2. get_batch corpus ''train'' False [] s'' = Inr (batch', s2) \<longrightarrow>
                  length batch' = 1
                  \<and> take (length [20, 21, 22::nat] - 3) batch' = drop 3 [20, 21, 22]
                  \<and> buffer s2 = None)
            \<and> (length (dataset_files (train_dataset ?sb)) \<le> 1 \<and> [20, 21, 22::nat] \<noteq> []
                 \<and> 3 \<le> length [20, 21, 22::nat] \<longrightarrow>
               (\<exists>s2 q. get_batch corpus ''train'' False [] s''
                     = Inr (map (\<lambda>i. [20, 21, 22] ! ((3 + i) mod length [20, 21, 22::nat])) [0..<1], s2)
                  \<and> buffer s2 = None
                  \<and> epoch s2 = epoch ?sb + q
                  \<and> 0 < dataset_offset s2 \<and> dataset_offset s2 \<le> length [20, 21, 22::nat]
                  \<and> 3 + 1 = q * length [20, 21, 22::nat] + dataset_offset s2)))"
    by (elim exE conjE)
  have nf: "\<not> 3 + 1 \<le> length [20, 21, 22::nat]" by simp
  note nofit1 = nofit [THEN mp, OF nf]
  have wr: "worker_run s'' = s''" using nofit1 by (rule conjunct1)
  have single: "length (dataset_files (train_dataset ?sb)) \<le> 1 \<and> [20, 21, 22::nat] \<noteq> []
                 \<and> 3 \<le> length [20, 21, 22::nat]"
    by (simp add: loader_init_def)
  from nofit1 [THEN conjunct2, THEN mp, OF seqb, THEN conjunct2, THEN conjunct2, THEN mp, OF single]
  obtain s3 q where wrap:
    "get_batch corpus ''train'' False [] s''
       = Inr (map (\<lambda>i. [20, 21, 22] ! ((3 + i) mod length [20, 21, 22::nat])) [0..<1], s3)"
    "buffer s3 = None" "epoch s3 = epoch ?sb + q"
    "0 < dataset_offset s3" "dataset_offset s3 \<le> length [20, 21, 22::nat]"
    "3 + 1 = q * length [20, 21, 22::nat] + dataset_offset s3"
    by (elim exE conjE)
  have qo: "q = 1 \<and> dataset_offset s3 = 1"
  proof -
    have e: "4 = q * 3 + dataset_offset s3" using wrap(6) by simp
    have u: "dataset_offset s3 \<le> 3" using wrap(5) by simp
    from e u wrap(4) show ?thesis by (cases q) auto
  qed
  have ep: "epoch ?sb = 0" by (simp add: loader_init_def)
  have nxb: "\<exists>s2. get_batch corpus ''train'' False [] s'' = Inr ([20], s2)
              \<and> dataset_offset s2 = 1 \<and> epoch s2 = 1 \<and> buffer s2 = None"
    using wrap(1,2,3) qo ep by (intro exI [of _ s3]) simp
  have w3: "\<exists>s'. get_batch corpus ''train'' False [] ?sb = Inr ([22], s')
        \<and> dataset_offset s' = 3 \<and> buffer s' = None \<and> buffer_thread s' = None
        \<and> worker_run s' = s'
        \<and> (\<exists>s2. get_batch corpus ''train'' False [] s' = Inr ([20], s2)
              \<and> dataset_offset s2 = 1 \<and> epoch s2 = 1 \<and> buffer s2 = None)"
    using sb fb wr nxb by (intro exI [of _ s'']) simp
  from w1 w2 w3 show ?thesis by (intro conjI)
qed




section \<open>Proofs: the file catalog\<close>

text \<open>
Claim C8, as amended. For every configuration and directory listing the catalog
  either fails with the error for missing training files or returns a sorted list that
  holds exactly the names the split resolves to, each as often as it was resolved:
  nothing is deduplicated, and the list is free of duplicates whenever the resolved
  names are. It fails if and only if the training split resolves to no file; a
  validation split that resolves to no file gives the empty list.
\<close>

theorem C8_catalog_sorted_not_deduplicated:
  "(case get_dataset_files glob cfg train_split of
      Inl e \<Rightarrow> e = TrainingFilesNotFound
    | Inr files \<Rightarrow>
        sorted files
        \<and> mset files = mset (resolve_dataset_files glob cfg train_split)
        \<and> (distinct (resolve_dataset_files glob cfg train_split) \<longrightarrow> distinct files))
   \<and> ((\<exists>e. get_dataset_files glob cfg train_split = Inl e)
        \<longleftrightarrow> train_split \<and> resolve_dataset_files glob cfg train_split = [])
   \<and> (\<not> train_split \<and> resolve_dataset_files glob cfg train_split = []
        \<longrightarrow> get_dataset_files glob cfg train_split = Inr [])"
  by (auto simp: get_dataset_files_def Let_def)

text \<open>
The theorem on a directory with two training files, no validation file and one file
  of an unsupported type, and on an empty directory.
\<close>

theorem C8_catalog_sorted_not_deduplicated_witness:
  "get_dataset_files listing directory_config True
     = Inr [''data/corpus/train_a.pt'', ''data/corpus/train_b.bin'']
   \<and> sorted [''data/corpus/train_a.pt'', ''data/corpus/train_b.bin'']
   \<and> distinct [''data/corpus/train_a.pt'', ''data/corpus/train_b.bin'']
   \<and> get_dataset_files listing directory_config False = Inr []
   \<and> get_dataset_files (\<lambda>pattern. []) directory_config True = Inl TrainingFilesNotFound"
proof -
  have r1: "resolve_dataset_files listing directory_config True
      = [''data/corpus/train_b.bin'', ''data/corpus/train_a.pt'']"
    by code_simp
  have r2: "resolve_dataset_files listing directory_config False = []"
    by code_simp
  have r3: "resolve_dataset_files (\<lambda>pattern. []) directory_config True = []"
    by (simp add: resolve_dataset_files_def directory_config_def truthy_def Let_def)
  have g1: "get_dataset_files listing directory_config True
     = Inr [''data/corpus/train_a.pt'', ''data/corpus/train_b.bin'']"
    by code_simp
  have d1: "distinct (resolve_dataset_files listing directory_config True)"
    unfolding r1 by simp
  have "sorted [''data/corpus/train_a.pt'', ''data/corpus/train_b.bin'']
      \<and> distinct [''data/corpus/train_a.pt'', ''data/corpus/train_b.bin'']"
    using C8_catalog_sorted_not_deduplicated [of listing directory_config True, THEN conjunct1] d1
    unfolding g1 by simp
  moreover have "get_dataset_files listing directory_config False = Inr []"
    using C8_catalog_sorted_not_deduplicated [of listing directory_config False,
        THEN conjunct2, THEN conjunct2] r2 by simp
  moreover have "\<exists>e. get_dataset_files (\<lambda>pattern. []) directory_config True = Inl e"
    using C8_catalog_sorted_not_deduplicated [of "\<lambda>pattern. []" directory_config True,
        THEN conjunct2, THEN conjunct1] r3 by simp
  then have "get_dataset_files (\<lambda>pattern. []) directory_config True = Inl TrainingFilesNotFound"
    using C8_catalog_sorted_not_deduplicated [of "\<lambda>pattern. []" directory_config True,
        THEN conjunct1] by auto
  ultimately show ?thesis using g1 by (intro conjI) simp_all
qed

text \<open>
Claim C8 as stated fails for an explicit file list that names a file twice: the
  result is sorted and holds the name twice.
\<close>

theorem C8_repeated_name_counterexample:
  "get_dataset_files listing repeated_config True = Inr [''a.bin'', ''a.bin'', ''b.bin'']
   \<and> \<not> distinct [''a.bin'', ''a.bin'', ''b.bin'']"
  by (simp add: get_dataset_files_def resolve_dataset_files_def repeated_config_def truthy_def)

section \<open>Proofs: padding and truncation of structured samples\<close>

lemma pad_to_append: "pad_to n v xs = xs @ replicate (n - length xs) v"
  by (simp add: pad_to_def)

lemma length_pad_to: "length (pad_to n v xs) = max n (length xs)"
  by (simp add: pad_to_def)

lemma prepare_alm_sample_fields:
  assumes "0 \<le> pad_token_id p" "input_ids smp = Some inp" "target_ids smp = Some tgt"
    and "prepare_alm_sample p smp = Inr r"
  shows "input_ids r = Some (pad_to (block_size p) (pad_token_id p) inp)"
    and "target_ids r = Some (pad_to (block_size p) (ignore_index p) tgt)"
    and "target_weights r =
           (if weighted_loss p then
              Some (pad_to (block_size p) 0
                (case target_weights smp of None \<Rightarrow> weights_of_targets p tgt | Some w \<Rightarrow> w))
            else None)"
  using assms
  by (auto simp: prepare_alm_sample_def Let_def split: option.splits prod.splits if_splits)

lemma prepare_alm_sample_returns:
  assumes "input_ids smp = Some inp" "target_ids smp = Some tgt" "seq_lens smp = None"
  shows "\<exists>r. prepare_alm_sample p smp = Inr r"
  using assms by (simp add: prepare_alm_sample_def Let_def)

lemma truncate_or_pad_eq:
  assumes "0 \<le> pad_token_id p"
  shows "truncate_or_pad p v xs
       = take (block_size p) xs @ replicate (block_size p - length xs) v"
  using assms by (simp add: truncate_or_pad_def sample_size_def)

lemma length_truncate_or_pad:
  assumes "0 \<le> pad_token_id p"
  shows "length (truncate_or_pad p v xs) = block_size p"
  using assms by (auto simp: truncate_or_pad_def sample_size_def)

lemma pad_or_truncate_dict:
  assumes "0 \<le> pad_token_id p" "input_ids smp = Some inp"
  shows "pad_or_truncate_item p (Dict smp)
       = Inr (Dict (smp\<lparr>
           input_ids := Some (truncate_or_pad p (ignore_index p) inp),
           target_ids := Some (truncate_or_pad p (ignore_index p)
                                 (case target_ids smp of None \<Rightarrow> drop 1 inp | Some t \<Rightarrow> t)),
           target_weights :=
             (if weighted_loss p then
                Some (truncate_or_pad p 0
                  (case target_weights smp of
                     None \<Rightarrow> weights_of_targets p
                               (case target_ids smp of None \<Rightarrow> drop 1 inp | Some t \<Rightarrow> t)
                   | Some w \<Rightarrow> w))
              else None)\<rparr>))"
  using assms
  by (simp add: pad_or_truncate_item_def Let_def length_truncate_or_pad split: option.splits)

lemma pad_or_truncate_tensor:
  assumes "0 \<le> pad_token_id p"
  shows "\<exists>r. pad_or_truncate_item p (Tensor xs) = Inr (Dict r)
          \<and> length (the (input_ids r)) = block_size p
          \<and> length (the (target_ids r)) = block_size p
          \<and> length (the (target_weights r)) = block_size p"
  using assms
  by (auto simp: pad_or_truncate_item_def Let_def sample_size_def weights_of_targets_def)

text \<open>
Claim C5, as amended. With a pad token configured (\<open>pad_token_id\<close> not negative) and a
  sample that has \<^verbatim>\<open>input_ids\<close>. \<^verbatim>\<open>prepare_alm_sample\<close> (files in the \<^verbatim>\<open>.alm\<close> format) only
  pads: it returns when the sample has no \<^verbatim>\<open>seq_lens\<close>, and whenever it returns,
  \<^verbatim>\<open>input_ids\<close> is the stored field followed by pad tokens up to the block size,
  \<^verbatim>\<open>target_ids\<close> the stored field followed by ignore sentinels, and with weighted loss
  \<^verbatim>\<open>target_weights\<close> the stored or derived weights followed by zeros; a field longer than
  the block size is returned unchanged, so the fields have the length of the block size
  exactly when the stored ones are not longer. \<^verbatim>\<open>pad_or_truncate_to_block_size\<close> (lists
  from \<^verbatim>\<open>.pt\<close> files) truncates and pads: for a dict and for a plain token tensor it
  returns a dict whose \<^verbatim>\<open>input_ids\<close>, \<^verbatim>\<open>target_ids\<close> (and \<^verbatim>\<open>target_weights\<close>, with weighted
  loss) all have the length of the block size; a longer \<^verbatim>\<open>input_ids\<close> is cut to its first
  block-size tokens, a shorter one is kept as a prefix, and \<^verbatim>\<open>target_ids\<close> is cut or
  filled with ignore sentinels.
\<close>

theorem C5_materialized_field_lengths:
  assumes "0 \<le> pad_token_id p" and "input_ids smp = Some inp"
  shows "(target_ids smp = Some tgt \<longrightarrow>
            (seq_lens smp = None \<longrightarrow> (\<exists>r. prepare_alm_sample p smp = Inr r))
          \<and> (\<forall>r. prepare_alm_sample p smp = Inr r \<longrightarrow>
                input_ids r = Some (inp @ replicate (block_size p - length inp) (pad_token_id p))
              \<and> target_ids r = Some (tgt @ replicate (block_size p - length tgt) (ignore_index p))
              \<and> (weighted_loss p \<longrightarrow>
                    target_weights r
                      = Some ((case target_weights smp of
                                 None \<Rightarrow> weights_of_targets p tgt | Some w \<Rightarrow> w)
                              @ replicate (block_size p
                                   - length (case target_weights smp of
                                               None \<Rightarrow> weights_of_targets p tgt | Some w \<Rightarrow> w)) 0))
              \<and> length (the (input_ids r)) = max (block_size p) (length inp)
              \<and> length (the (target_ids r)) = max (block_size p) (length tgt)
              \<and> (length inp \<le> block_size p \<and> length tgt \<le> block_size p \<longrightarrow>
                    length (the (input_ids r)) = block_size p
                    \<and> length (the (target_ids r)) = block_size p)
              \<and> (weighted_loss p \<and> length tgt \<le> block_size p
                    \<and> (\<forall>w. target_weights smp = Some w \<longrightarrow> length w \<le> block_size p) \<longrightarrow>
                    length (the (target_weights r)) = block_size p)))
       \<and> (\<exists>r. pad_or_truncate_item p (Dict smp) = Inr (Dict r)
             \<and> length (the (input_ids r)) = block_size p
             \<and> length (the (target_ids r)) = block_size p
             \<and> (weighted_loss p \<longrightarrow> length (the (target_weights r)) = block_size p)
             \<and> (block_size p < length inp \<longrightarrow> input_ids r = Some (take (block_size p) inp))
             \<and> (length inp \<le> block_size p \<longrightarrow> take (length inp) (the (input_ids r)) = inp)
             \<and> target_ids r
                 = Some (take (block_size p)
                           (case target_ids smp of None \<Rightarrow> drop 1 inp | Some t \<Rightarrow> t)
                         @ replicate (block_size p
                              - length (case target_ids smp of None \<Rightarrow> drop 1 inp | Some t \<Rightarrow> t))
                             (ignore_index p)))
       \<and> (\<exists>r. pad_or_truncate_item p (Tensor xs) = Inr (Dict r)
             \<and> length (the (input_ids r)) = block_size p
             \<and> length (the (target_ids r)) = block_size p
             \<and> length (the (target_weights r)) = block_size p)"
proof (intro conjI impI allI)
  assume t: "target_ids smp = Some tgt"
  {
    assume "seq_lens smp = None"
    then show "\<exists>r. prepare_alm_sample p smp = Inr r"
      using prepare_alm_sample_returns [OF assms(2) t] by blast
  }
  fix r assume r: "prepare_alm_sample p smp = Inr r"
  note f = prepare_alm_sample_fields [OF assms(1) assms(2) t r]
  show i: "input_ids r = Some (inp @ replicate (block_size p - length inp) (pad_token_id p))"
    using f(1) by (simp add: pad_to_append)
  show g: "target_ids r = Some (tgt @ replicate (block_size p - length tgt) (ignore_index p))"
    using f(2) by (simp add: pad_to_append)
  show "length (the (input_ids r)) = max (block_size p) (length inp)" using i by auto
  show "length (the (target_ids r)) = max (block_size p) (length tgt)" using g by auto
  {
    assume "weighted_loss p"
    then show "target_weights r
        = Some ((case target_weights smp of None \<Rightarrow> weights_of_targets p tgt | Some w \<Rightarrow> w)
                @ replicate (block_size p
                     - length (case target_weights smp of
                                 None \<Rightarrow> weights_of_targets p tgt | Some w \<Rightarrow> w)) 0)"
      using f(3) by (simp add: pad_to_append)
  }
  {
    assume "length inp \<le> block_size p \<and> length tgt \<le> block_size p"
    then show "length (the (input_ids r)) = block_size p"
      and "length (the (target_ids r)) = block_size p" using i g by auto
  }
  {
    assume "weighted_loss p \<and> length tgt \<le> block_size p
        \<and> (\<forall>w. target_weights smp = Some w \<longrightarrow> length w \<le> block_size p)"
    then show "length (the (target_weights r)) = block_size p"
      using f(3) by (auto simp: length_pad_to weights_of_targets_def split: option.splits)
  }
next
  let ?tgt = "case target_ids smp of None \<Rightarrow> drop 1 inp | Some t \<Rightarrow> t"
  let ?r = "smp\<lparr>
           input_ids := Some (truncate_or_pad p (ignore_index p) inp),
           target_ids := Some (truncate_or_pad p (ignore_index p) ?tgt),
           target_weights :=
             (if weighted_loss p then
                Some (truncate_or_pad p 0
                  (case target_weights smp of
                     None \<Rightarrow> weights_of_targets p ?tgt
                   | Some w \<Rightarrow> w))
              else None)\<rparr>"
  have "pad_or_truncate_item p (Dict smp) = Inr (Dict ?r)"
    by (rule pad_or_truncate_dict [OF assms])
  moreover have "length (the (input_ids ?r)) = block_size p"
    "length (the (target_ids ?r)) = block_size p"
    "weighted_loss p \<longrightarrow> length (the (target_weights ?r)) = block_size p"
    by (simp_all add: length_truncate_or_pad [OF assms(1)])
  moreover have "block_size p < length inp \<longrightarrow> input_ids ?r = Some (take (block_size p) inp)"
    by (simp add: truncate_or_pad_eq [OF assms(1)])
  moreover have "length inp \<le> block_size p \<longrightarrow> take (length inp) (the (input_ids ?r)) = inp"
    by (simp add: truncate_or_pad_eq [OF assms(1)])
  moreover have "target_ids ?r
      = Some (take (block_size p) ?tgt @ replicate (block_size p - length ?tgt) (ignore_index p))"
    by (simp add: truncate_or_pad_eq [OF assms(1)])
  ultimately show "\<exists>r. pad_or_truncate_item p (Dict smp) = Inr (Dict r)
             \<and> length (the (input_ids r)) = block_size p
             \<and> length (the (target_ids r)) = block_size p
             \<and> (weighted_loss p \<longrightarrow> length (the (target_weights r)) = block_size p)
             \<and> (block_size p < length inp \<longrightarrow> input_ids r = Some (take (block_size p) inp))
             \<and> (length inp \<le> block_size p \<longrightarrow> take (length inp) (the (input_ids r)) = inp)
             \<and> target_ids r
                 = Some (take (block_size p) ?tgt
                         @ replicate (block_size p - length ?tgt) (ignore_index p))"
    by (intro exI [of _ ?r] conjI)
next
  show "\<exists>r. pad_or_truncate_item p (Tensor xs) = Inr (Dict r)
             \<and> length (the (input_ids r)) = block_size p
             \<and> length (the (target_ids r)) = block_size p
             \<and> length (the (target_weights r)) = block_size p"
    by (rule pad_or_truncate_tensor [OF assms(1)])
qed

text \<open>
The theorem at a short sample in the \<^verbatim>\<open>.alm\<close> path and at a long one in the \<^verbatim>\<open>.pt\<close> path.
\<close>

theorem C5_materialized_field_lengths_witness:
  "(\<exists>r. prepare_alm_sample example_params (stored_sample [5, 6] [6, 7] None None) = Inr r
        \<and> input_ids r = Some [5, 6, 0, 0]
        \<and> target_ids r = Some [6, 7, - 100, - 100]
        \<and> target_weights r = Some [1, 1, 0, 0])
   \<and> (\<exists>r. pad_or_truncate_item example_params
              (Dict (stored_sample [5, 6, 7, 8, 9, 10] [6, 7] None None)) = Inr (Dict r)
        \<and> input_ids r = Some [5, 6, 7, 8]
        \<and> target_ids r = Some [6, 7, - 100, - 100]
        \<and> length (the (target_weights r)) = 4)"
proof -
  have p: "0 \<le> pad_token_id example_params" by (simp add: example_params_def)
  have bs: "block_size example_params = 4" "pad_token_id example_params = 0"
    "ignore_index example_params = - 100" "weighted_loss example_params"
    by (simp_all add: example_params_def)
  let ?a = "stored_sample [5, 6] [6, 7] None None"
  let ?b = "stored_sample [5, 6, 7, 8, 9, 10] [6, 7] None None"
  have ia: "input_ids ?a = Some [5, 6]" and ib: "input_ids ?b = Some [5, 6, 7, 8, 9, 10]"
    by (simp_all add: stored_sample_def)
  have fa: "target_ids ?a = Some [6, 7]" "seq_lens ?a = None" "target_weights ?a = None"
    by (simp_all add: stored_sample_def)
  have fb: "target_ids ?b = Some [6, 7]" by (simp add: stored_sample_def)
  have r4: "replicate 2 x = [x, x]" for x :: int by (simp add: numeral_2_eq_2)
  note ta = C5_materialized_field_lengths [OF p ia, of "[6, 7]" "[]", THEN conjunct1, THEN mp, OF fa(1)]
  from ta [THEN conjunct1, THEN mp, OF fa(2)] obtain r where
    r: "prepare_alm_sample example_params ?a = Inr r" by (elim exE)
  note pa = ta [THEN conjunct2, THEN spec, THEN mp, OF r]
  have w1: "\<exists>r. prepare_alm_sample example_params ?a = Inr r
        \<and> input_ids r = Some [5, 6, 0, 0]
        \<and> target_ids r = Some [6, 7, - 100, - 100]
        \<and> target_weights r = Some [1, 1, 0, 0]"
    using r pa by (intro exI [of _ r]) (simp add: bs fa r4 weights_of_targets_def)
  from C5_materialized_field_lengths [OF p ib, of "[]" "[]", THEN conjunct2, THEN conjunct1]
  obtain r' where r': "pad_or_truncate_item example_params (Dict ?b) = Inr (Dict r')"
    "length (the (target_weights r')) = 4"
    "input_ids r' = Some (take 4 [5, 6, 7, 8, 9, 10])"
    "target_ids r' = Some (take 4 [6, 7] @ replicate (4 - length [6, 7::int]) (- 100))"
    by (simp add: bs fb) blast
  have w2: "\<exists>r. pad_or_truncate_item example_params (Dict ?b) = Inr (Dict r)
        \<and> input_ids r = Some [5, 6, 7, 8]
        \<and> target_ids r = Some [6, 7, - 100, - 100]
        \<and> length (the (target_weights r)) = 4"
    using r' by (intro exI [of _ r']) (simp add: r4)
  from w1 w2 show ?thesis by (intro conjI)
qed

text \<open>
Claim C5 as stated fails in the \<^verbatim>\<open>.alm\<close> path for a sample longer than the block size:
  nothing is truncated there.
\<close>

theorem C5_long_alm_sample_counterexample:
  "prepare_alm_sample example_params
      (stored_sample [1, 2, 3, 4, 5, 6] [2, 3, 4, 5, 6, 7] None None)
     = Inr \<lparr>input_ids = Some [1, 2, 3, 4, 5, 6], target_ids = Some [2, 3, 4, 5, 6, 7],
            target_weights = Some [1, 1, 1, 1, 1, 1], seq_lens = None, input_pos = None,
            attn_mask = None\<rparr>
   \<and> length [1, 2, 3, 4, 5, 6 :: int] \<noteq> block_size example_params"
  by (simp add: prepare_alm_sample_def example_params_def stored_sample_def pad_to_def
      weights_of_targets_def)

text \<open>
Claim C6, as amended. For a sample in the \<^verbatim>\<open>.alm\<close> format whose \<^verbatim>\<open>input_ids\<close> is shorter
  than the block size, with a pad token configured and weighted loss enabled:
  \<^verbatim>\<open>prepare_alm_sample\<close> returns when the sample has no \<^verbatim>\<open>seq_lens\<close>, and whenever it
  returns, \<^verbatim>\<open>input_ids\<close> is padded to the block size with the pad token and \<^verbatim>\<open>target_ids\<close>
  is padded with the ignore sentinel (to the block size when it is not longer). When
  the sample has no weights of its own, \<^verbatim>\<open>target_weights\<close> is 0 where the padded
  \<^verbatim>\<open>target_ids\<close> is the ignore sentinel and 1 elsewhere, so 0 in the whole padded region.
  When the sample has weights, they are kept as they are and padded with zeros.
\<close>

theorem C6_alm_padding_and_derived_weights:
  assumes "0 \<le> pad_token_id p" and "weighted_loss p"
    and "input_ids smp = Some inp" and "target_ids smp = Some tgt"
    and "length inp < block_size p"
  shows "(seq_lens smp = None \<longrightarrow> (\<exists>r. prepare_alm_sample p smp = Inr r))
       \<and> (\<forall>r. prepare_alm_sample p smp = Inr r \<longrightarrow>
             input_ids r = Some (inp @ replicate (block_size p - length inp) (pad_token_id p))
           \<and> length (the (input_ids r)) = block_size p
           \<and> target_ids r = Some (tgt @ replicate (block_size p - length tgt) (ignore_index p))
           \<and> (length tgt \<le> block_size p \<longrightarrow> length (the (target_ids r)) = block_size p)
           \<and> (target_weights smp = None \<longrightarrow>
                 target_weights r
                   = Some (map (\<lambda>t. if t = ignore_index p then 0 else 1) (the (target_ids r)))
                 \<and> (\<forall>i. length tgt \<le> i \<and> i < length (the (target_weights r)) \<longrightarrow>
                        the (target_weights r) ! i = 0))
           \<and> (\<forall>w. target_weights smp = Some w \<longrightarrow>
                 target_weights r = Some (w @ replicate (block_size p - length w) 0)))"
proof (intro conjI impI allI)
  assume "seq_lens smp = None"
  then show "\<exists>r. prepare_alm_sample p smp = Inr r"
    using prepare_alm_sample_returns [OF assms(3) assms(4)] by blast
next
  fix r assume r: "prepare_alm_sample p smp = Inr r"
  note f = prepare_alm_sample_fields [OF assms(1) assms(3) assms(4) r]
  show i: "input_ids r = Some (inp @ replicate (block_size p - length inp) (pad_token_id p))"
    using f(1) by (simp add: pad_to_append)
  show "length (the (input_ids r)) = block_size p" using i assms(5) by simp
  show g: "target_ids r = Some (tgt @ replicate (block_size p - length tgt) (ignore_index p))"
    using f(2) by (simp add: pad_to_append)
  {
    assume "length tgt \<le> block_size p"
    then show "length (the (target_ids r)) = block_size p" using g by simp
  }
  {
    assume n: "target_weights smp = None"
    then have w: "target_weights r
        = Some (map (\<lambda>t. if t = ignore_index p then 0 else 1) tgt
                @ replicate (block_size p - length tgt) 0)"
      using f(3) assms(2) by (simp add: pad_to_append weights_of_targets_def)
    then show "target_weights r
        = Some (map (\<lambda>t. if t = ignore_index p then 0 else 1) (the (target_ids r)))"
      using g by simp
    fix i assume b: "length tgt \<le> i \<and> i < length (the (target_weights r))"
    then have "i - length tgt < block_size p - length tgt" using w by auto
    then have "replicate (block_size p - length tgt) (0::int) ! (i - length tgt) = 0"
      by (rule nth_replicate)
    then show "the (target_weights r) ! i = 0" using w b by (simp add: nth_append)
  }
  {
    fix w assume "target_weights smp = Some w"
    then show "target_weights r = Some (w @ replicate (block_size p - length w) 0)"
      using f(3) assms(2) by (simp add: pad_to_append)
  }
qed

text \<open>
The theorem at a sample of two tokens whose second target is the ignore sentinel.
\<close>

theorem C6_alm_padding_and_derived_weights_witness:
  "\<exists>r. prepare_alm_sample example_params (stored_sample [5, 6] [6, - 100] None None) = Inr r
      \<and> input_ids r = Some [5, 6, 0, 0]
      \<and> target_ids r = Some [6, - 100, - 100, - 100]
      \<and> target_weights r = Some [1, 0, 0, 0]"
proof -
  let ?a = "stored_sample [5, 6] [6, - 100] None None"
  have h: "0 \<le> pad_token_id example_params" "weighted_loss example_params"
    "input_ids ?a = Some [5, 6]" "target_ids ?a = Some [6, - 100]"
    "length [5, 6 :: int] < block_size example_params"
    by (simp_all add: example_params_def stored_sample_def)
  have s: "seq_lens ?a = None" "target_weights ?a = None" by (simp_all add: stored_sample_def)
  have bs: "block_size example_params = 4" "pad_token_id example_params = 0"
    "ignore_index example_params = - 100"
    by (simp_all add: example_params_def)
  have r4: "replicate 2 x = [x, x]" for x :: int by (simp add: numeral_2_eq_2)
  note t = C6_alm_padding_and_derived_weights [OF h]
  from t [THEN conjunct1, THEN mp, OF s(1)] obtain r where
    r: "prepare_alm_sample example_params ?a = Inr r" by (elim exE)
  note pr = t [THEN conjunct2, THEN spec, THEN mp, OF r]
  show ?thesis using r pr s(2) by (intro exI [of _ r]) (simp add: bs r4)
qed

text \<open>
Claim C6 as stated fails for a sample that has weights of its own: the first target
  is not the ignore sentinel, and its weight is the stored 0, not 1.
\<close>

theorem C6_provided_weights_counterexample:
  "prepare_alm_sample example_params (stored_sample [5, 6] [6, 7] (Some [0, 1]) None)
     = Inr \<lparr>input_ids = Some [5, 6, 0, 0], target_ids = Some [6, 7, - 100, - 100],
            target_weights = Some [0, 1, 0, 0], seq_lens = None, input_pos = None,
            attn_mask = None\<rparr>
   \<and> [6, 7, - 100, - 100] ! 0 \<noteq> ignore_index example_params
   \<and> [0, 1, 0, 0 :: int] ! 0 \<noteq> 1"
  by (simp add: prepare_alm_sample_def example_params_def stored_sample_def pad_to_def
      numeral_2_eq_2)

section \<open>Proofs: the attention mask and positions of packed samples\<close>

lemma seq_lens_loop_acc:
  "seq_lens_loop lens (t, ms, ps)
     = (t + sum_list lens, ms @ map tril_ones lens, ps @ concat (map (\<lambda>n. [0..<n]) lens))"
  by (induction lens arbitrary: t ms ps) simp_all

lemma length_positions: "length (concat (map (\<lambda>n. [0..<n]) lens)) = sum_list lens"
  by (induction lens) simp_all

lemma positions_le:
  "k < sum_list lens \<Longrightarrow> concat (map (\<lambda>n. [0..<n]) lens) ! k \<le> k"
proof (induction lens arbitrary: k)
  case Nil
  then show ?case by simp
next
  case (Cons n lens)
  show ?case
  proof (cases "k < n")
    case True
    then show ?thesis by (simp add: nth_append)
  next
    case False
    then have "k - n < sum_list lens" using Cons.prems by simp
    from Cons.IH [OF this] show ?thesis using False by (simp add: nth_append)
  qed
qed

lemma last_positions:
  "lens \<noteq> [] \<Longrightarrow> 0 < last lens \<Longrightarrow>
   last (concat (map (\<lambda>n. [0..<n]) lens)) = last lens - 1"
proof (induction lens)
  case Nil
  then show ?case by simp
next
  case (Cons n lens)
  show ?case
  proof (cases "lens = []")
    case True
    then have "0 < n" using Cons.prems by simp
    then obtain m where "n = Suc m" by (cases n) auto
    then show ?thesis using True by simp
  next
    case False
    then have l: "last (n # lens) = last lens" by simp
    then have pos: "0 < last lens" using Cons.prems by simp
    have "last lens \<in> set lens" using False by simp
    then have "last lens \<le> sum_list lens" by (simp add: member_le_sum_list)
    then have sp: "0 < sum_list lens" using pos by simp
    have ne: "concat (map (\<lambda>n. [0..<n]) lens) \<noteq> []"
    proof
      assume z: "concat (map (\<lambda>n. [0..<n]) lens) = []"
      have "sum_list lens = length (concat (map (\<lambda>n. [0..<n]) lens))"
        by (rule length_positions [symmetric])
      also have "\<dots> = 0" unfolding z by simp
      finally have "sum_list lens = 0" .
      then show False using sp by linarith
    qed
    have "last (concat (map (\<lambda>n. [0..<n]) (n # lens))) = last (concat (map (\<lambda>n. [0..<n]) lens))"
      using ne by simp
    then show ?thesis using Cons.IH [OF False pos] l by simp
  qed
qed

lemma length_tril_ones: "length (tril_ones n) = n"
  by (simp add: tril_ones_def)

lemma ncols_map: "xs \<noteq> [] \<Longrightarrow> ncols (map f xs) = length (f (hd xs))"
  by (cases xs) (simp_all add: ncols_def)

lemma ncols_tril_ones: "ncols (tril_ones n) = n"
proof (cases n)
  case 0
  then show ?thesis by (simp add: tril_ones_def ncols_def)
next
  case (Suc m)
  have ne: "[0..<Suc m] \<noteq> []" by simp
  have "ncols (tril_ones (Suc m)) = length (map (\<lambda>j. j \<le> hd [0..<Suc m]) [0..<Suc m])"
    unfolding tril_ones_def
    by (rule ncols_map [where xs = "[0..<Suc m]" and f = "\<lambda>i. map (\<lambda>j. j \<le> i) [0..<Suc m]", OF ne])
  also have "\<dots> = Suc m" by (simp only: length_map length_upt diff_zero)
  finally show ?thesis using Suc by simp
qed

lemma ncols_of_square:
  "length m = c \<Longrightarrow> \<forall>row\<in>set m. length row = c \<Longrightarrow> ncols m = c"
  by (cases m) (auto simp: ncols_def)

lemma packed_mask_dims:
  "length (block_diag (map tril_ones lens @ [eye k])) = sum_list lens + k
   \<and> (\<forall>row\<in>set (block_diag (map tril_ones lens @ [eye k])). length row = sum_list lens + k)"
proof (induction lens)
  case Nil
  show ?case by (simp add: eye_def ncols_def)
next
  case (Cons n lens)
  let ?R = "block_diag (map tril_ones lens @ [eye k])"
  have l: "length ?R = sum_list lens + k"
    and r: "\<forall>row\<in>set ?R. length row = sum_list lens + k"
    using Cons.IH by simp_all
  have c: "ncols ?R = sum_list lens + k" by (rule ncols_of_square [OF l r])
  have e: "block_diag (map tril_ones (n # lens) @ [eye k])
      = map (\<lambda>row. row @ replicate (sum_list lens + k) False) (tril_ones n)
        @ map (\<lambda>row. replicate n False @ row) ?R"
    by (simp add: c ncols_tril_ones)
  have t: "\<forall>row\<in>set (tril_ones n). length row = n" by (simp add: tril_ones_def)
  show ?case unfolding e using l r t by (auto simp: length_tril_ones)
qed

lemma packed_mask_nth:
  "i < sum_list lens + k \<Longrightarrow> j < sum_list lens + k \<Longrightarrow>
   block_diag (map tril_ones lens @ [eye k]) ! i ! j
     \<longleftrightarrow> (if i < sum_list lens
          then i - concat (map (\<lambda>n. [0..<n]) lens) ! i \<le> j \<and> j \<le> i
          else j = i)"
proof (induction lens arbitrary: i j)
  case Nil
  then show ?case by (auto simp: eye_def ncols_def)
next
  case (Cons n lens)
  let ?R = "block_diag (map tril_ones lens @ [eye k])"
  let ?P = "concat (map (\<lambda>n. [0..<n]) lens)"
  let ?C = "sum_list lens + k"
  have l: "length ?R = ?C" and r: "\<forall>row\<in>set ?R. length row = ?C"
    using packed_mask_dims [of lens k] by simp_all
  have c: "ncols ?R = ?C" by (rule ncols_of_square [OF l r])
  have e: "block_diag (map tril_ones (n # lens) @ [eye k])
      = map (\<lambda>row. row @ replicate ?C False) (tril_ones n)
        @ map (\<lambda>row. replicate n False @ row) ?R"
    by (simp add: c ncols_tril_ones)
  have i: "i < n + ?C" and j: "j < n + ?C" using Cons.prems by simp_all
  have pe: "concat (map (\<lambda>n. [0..<n]) (n # lens)) = [0..<n] @ ?P" by simp
  have se: "sum_list (n # lens) = n + sum_list lens" by simp
  show ?case
  proof (cases "i < n")
    case True
    have row: "block_diag (map tril_ones (n # lens) @ [eye k]) ! i
        = map (\<lambda>j. j \<le> i) [0..<n] @ replicate ?C False"
      unfolding e using True by (simp add: nth_append length_tril_ones tril_ones_def)
    have p: "concat (map (\<lambda>n. [0..<n]) (n # lens)) ! i = i"
      unfolding pe using True by (simp add: nth_append)
    have lt: "i < sum_list (n # lens)" using True by simp
    have ent: "(map (\<lambda>j. j \<le> i) [0..<n] @ replicate ?C False) ! j \<longleftrightarrow> j < n \<and> j \<le> i"
      using j by (simp add: nth_append)
    show ?thesis unfolding row ent p using lt True by auto
  next
    case False
    then have ge: "n \<le> i" by simp
    have i': "i - n < ?C" using i ge by simp
    have row: "block_diag (map tril_ones (n # lens) @ [eye k]) ! i
        = replicate n False @ ?R ! (i - n)"
      unfolding e using False i' l by (simp add: nth_append length_tril_ones)
    have rl: "length (?R ! (i - n)) = ?C" using r i' l by simp
    have p: "concat (map (\<lambda>n. [0..<n]) (n # lens)) ! i = ?P ! (i - n)"
      unfolding pe using False by (simp add: nth_append)
    show ?thesis
    proof (cases "j < n")
      case True
      have ent: "(replicate n False @ ?R ! (i - n)) ! j = False"
        using True by (simp add: nth_append)
      have "\<not> (i - ?P ! (i - n) \<le> j)" if "i < n + sum_list lens"
      proof -
        have "i - n < sum_list lens" using that ge by simp
        from positions_le [OF this] have "?P ! (i - n) \<le> i - n" .
        then show ?thesis using True ge by simp
      qed
      then show ?thesis unfolding row ent p se using True ge by auto
    next
      case jn: False
      then have j': "j - n < ?C" using j by simp
      have ent: "(replicate n False @ ?R ! (i - n)) ! j = ?R ! (i - n) ! (j - n)"
        using jn by (simp add: nth_append)
      note ih = Cons.IH [OF i' j']
      show ?thesis
      proof (cases "i < n + sum_list lens")
        case True
        then have lt: "i - n < sum_list lens" using ge by simp
        from positions_le [OF lt] have q: "?P ! (i - n) \<le> i - n" .
        have a: "(i - n - ?P ! (i - n) \<le> j - n \<and> j - n \<le> i - n)
            \<longleftrightarrow> (i - ?P ! (i - n) \<le> j \<and> j \<le> i)"
          using q ge jn by auto
        have "?R ! (i - n) ! (j - n) \<longleftrightarrow> (i - ?P ! (i - n) \<le> j \<and> j \<le> i)"
          using ih lt a by simp
        then show ?thesis unfolding row ent p se using True by simp
      next
        case False
        then have nlt: "\<not> i - n < sum_list lens" using ge by simp
        have "?R ! (i - n) ! (j - n) \<longleftrightarrow> j = i"
          using ih nlt ge jn by auto
        then show ?thesis unfolding row ent p se using False by simp
      qed
    qed
  qed
qed

lemma prepare_alm_sample_packed:
  assumes "input_ids smp = Some inp" "target_ids smp = Some tgt" "seq_lens smp = Some lens"
    and "seq_lens_loop lens (0, [], []) = (T, ms, Q)" and "Q \<noteq> []"
    and "n = length (if 0 \<le> pad_token_id p
                     then pad_to (block_size p) (pad_token_id p) inp else inp)"
    and "T < n"
  shows "\<exists>r. prepare_alm_sample p smp = Inr r
      \<and> input_pos r = Some (Q @ [last Q + 1..<last Q + 1 + (n - T)])
      \<and> attn_mask r = Some (block_diag (ms @ [eye (n - T)]))
      \<and> length (the (input_ids r)) = n"
proof (cases "0 \<le> pad_token_id p")
  case True
  have n: "n = length (pad_to (block_size p) (pad_token_id p) inp)"
    using assms(6) True by simp
  show ?thesis
    unfolding n using assms(1-5) True assms(7) [unfolded n]
    by (simp add: prepare_alm_sample_def Let_def Suc_diff_le del: upt_Suc)
next
  case False
  have n: "n = length inp" using assms(6) False by simp
  show ?thesis
    unfolding n using assms(1-5) False assms(7) [unfolded n]
    by (simp add: prepare_alm_sample_def Let_def Suc_diff_le del: upt_Suc)
qed

text \<open>
Claim C7, as amended. For an ALM sample that carries \<^verbatim>\<open>seq_lens\<close> whose total \<open>T\<close> is positive
  and less than the length \<open>L\<close> of the (padded) input, materialization returns a result
  in which \<^verbatim>\<open>attn_mask\<close> is the block-diagonal matrix of one lower-triangular block of ones
  per sequence length followed by an identity block of size \<open>L - T\<close>, and \<^verbatim>\<open>input_pos\<close> is
  the concatenation of \<open>0..len-1\<close> for each sub-sequence followed by \<open>L - T\<close> positions that
  continue from the last position of the packed part. The position vector has length \<open>L\<close>
  and the mask is \<open>L \<times> L\<close>. Entry by entry: the row of a packed token \<open>i\<close> is true exactly
  on the columns from the start of its sub-sequence, \<open>i - input_pos[i]\<close>, up to \<open>i\<close>; the
  row of a pad token is true exactly on the diagonal; the position of the pad token at
  index \<open>i\<close> is the last packed position plus \<open>1 + (i - T)\<close>; and the last packed position
  is the last sequence length minus one when that length is positive.
\<close>

theorem C7_packed_mask_and_positions:
  assumes inp: "input_ids smp = Some inp" and tgt: "target_ids smp = Some tgt"
    and lens: "seq_lens smp = Some lens"
    and L: "L = (if 0 \<le> pad_token_id p then max (block_size p) (length inp) else length inp)"
    and lt: "sum_list lens < L" and pos: "0 < sum_list lens"
  shows "\<exists>r P M. prepare_alm_sample p smp = Inr r
      \<and> input_pos r = Some P \<and> attn_mask r = Some M
      \<and> length (the (input_ids r)) = L
      \<and> P = concat (map (\<lambda>n. [0..<n]) lens)
            @ [last (concat (map (\<lambda>n. [0..<n]) lens)) + 1
               ..< last (concat (map (\<lambda>n. [0..<n]) lens)) + 1 + (L - sum_list lens)]
      \<and> M = block_diag (map tril_ones lens @ [eye (L - sum_list lens)])
      \<and> length P = L \<and> length M = L \<and> (\<forall>row\<in>set M. length row = L)
      \<and> (\<forall>i<L. \<forall>j<L. M ! i ! j
            \<longleftrightarrow> (if i < sum_list lens then i - P ! i \<le> j \<and> j \<le> i else j = i))
      \<and> (\<forall>i<L. sum_list lens \<le> i \<longrightarrow>
            P ! i = last (concat (map (\<lambda>n. [0..<n]) lens)) + 1 + (i - sum_list lens))
      \<and> (0 < last lens \<longrightarrow> last (concat (map (\<lambda>n. [0..<n]) lens)) = last lens - 1)"
proof -
  let ?Q = "concat (map (\<lambda>n. [0..<n]) lens)"
  let ?T = "sum_list lens"
  let ?c = "last ?Q + 1"
  let ?k = "L - ?T"
  let ?P = "?Q @ [?c..<?c + ?k]"
  let ?M = "block_diag (map tril_ones lens @ [eye ?k])"
  have lp: "length ?Q = ?T" by (rule length_positions)
  have ne: "?Q \<noteq> []"
  proof
    assume z: "?Q = []"
    have "?T = length ?Q" by (rule lp [symmetric])
    also have "\<dots> = 0" unfolding z by simp
    finally have "?T = 0" .
    then show False using pos by linarith
  qed
  have loop: "seq_lens_loop lens (0, [], []) = (?T, map tril_ones lens, ?Q)"
    using seq_lens_loop_acc [of lens 0 "[]" "[]"] by simp
  have tk: "?T + ?k = L" using lt by simp
  have n: "L = length (if 0 \<le> pad_token_id p
                          then pad_to (block_size p) (pad_token_id p) inp else inp)"
    using L by (simp add: length_pad_to)
  have run: "\<exists>r. prepare_alm_sample p smp = Inr r
      \<and> input_pos r = Some ?P \<and> attn_mask r = Some ?M \<and> length (the (input_ids r)) = L"
    by (rule prepare_alm_sample_packed [OF inp tgt lens loop ne n lt])
  then obtain r where r: "prepare_alm_sample p smp = Inr r"
    and rp: "input_pos r = Some ?P" and rm: "attn_mask r = Some ?M"
    and rl: "length (the (input_ids r)) = L"
    by (elim exE conjE)
  have lP': "length ?P = ?T + ?k"
    by (simp only: length_append length_upt lp add_diff_cancel_left')
  have lP: "length ?P = L" unfolding lP' by (rule tk)
  have d1: "length ?M = L"
    using packed_mask_dims [of lens ?k, THEN conjunct1] by (simp only: tk)
  have d2: "\<forall>row\<in>set ?M. length row = L"
    using packed_mask_dims [of lens ?k, THEN conjunct2] by (simp only: tk)
  have entries: "\<forall>i<L. \<forall>j<L. ?M ! i ! j
      \<longleftrightarrow> (if i < ?T then i - ?P ! i \<le> j \<and> j \<le> i else j = i)"
  proof (intro allI impI)
    fix i j
    assume i: "i < L" and j: "j < L"
    have i': "i < ?T + ?k" and j': "j < ?T + ?k" using i j tk by simp_all
    have pi: "i < ?T \<Longrightarrow> ?P ! i = ?Q ! i" by (simp only: nth_append lp if_True)
    show "?M ! i ! j \<longleftrightarrow> (if i < ?T then i - ?P ! i \<le> j \<and> j \<le> i else j = i)"
    proof (cases "i < ?T")
      case True
      have "?M ! i ! j \<longleftrightarrow> i - ?Q ! i \<le> j \<and> j \<le> i"
        using packed_mask_nth [OF i' j'] by (simp only: True if_True)
      then show ?thesis by (simp only: pi [OF True] True if_True)
    next
      case False
      have "?M ! i ! j \<longleftrightarrow> j = i"
        using packed_mask_nth [OF i' j'] by (simp only: False if_False)
      then show ?thesis by (simp only: False if_False)
    qed
  qed
  have pads: "\<forall>i<L. ?T \<le> i \<longrightarrow> ?P ! i = ?c + (i - ?T)"
  proof (intro allI impI)
    fix i
    assume i: "i < L" and ge: "?T \<le> i"
    have nlt: "\<not> i < ?T" using ge by simp
    have "?P ! i = [?c..<?c + ?k] ! (i - ?T)" by (simp only: nth_append lp nlt if_False)
    also have "\<dots> = ?c + (i - ?T)" using i ge by (intro nth_upt) simp
    finally show "?P ! i = ?c + (i - ?T)" .
  qed
  have lensne: "lens \<noteq> []" using pos by auto
  have lst: "0 < last lens \<longrightarrow> last ?Q = last lens - 1"
    by (intro impI) (rule last_positions [OF lensne])
  have refl1: "?P = ?P" and refl2: "?M = ?M" by (rule refl)+
  from r rp rm rl refl1 refl2 lP d1 d2 entries pads lst
  have main: "prepare_alm_sample p smp = Inr r
      \<and> input_pos r = Some ?P \<and> attn_mask r = Some ?M
      \<and> length (the (input_ids r)) = L
      \<and> ?P = ?Q @ [?c..<?c + ?k]
      \<and> ?M = block_diag (map tril_ones lens @ [eye ?k])
      \<and> length ?P = L \<and> length ?M = L \<and> (\<forall>row\<in>set ?M. length row = L)
      \<and> (\<forall>i<L. \<forall>j<L. ?M ! i ! j
            \<longleftrightarrow> (if i < ?T then i - ?P ! i \<le> j \<and> j \<le> i else j = i))
      \<and> (\<forall>i<L. ?T \<le> i \<longrightarrow> ?P ! i = ?c + (i - ?T))
      \<and> (0 < last lens \<longrightarrow> last ?Q = last lens - 1)"
    by (intro conjI)
  show ?thesis by (rule exI, rule exI, rule exI) (rule main)
qed

text \<open>
Claim C7 as stated fails for a sample whose \<^verbatim>\<open>seq_lens\<close> is empty: the total 0 is less
  than the padded input length, and the code reads the last element of the empty
  position list (\<^verbatim>\<open>sample_input_pos[-1]\<close>), which is an \<^verbatim>\<open>IndexError\<close>.
\<close>

theorem C7_empty_seq_lens_counterexample:
  "prepare_alm_sample example_params (stored_sample [1, 2] [2, 3] None (Some []))
     = Inl IndexError"
  by (simp add: prepare_alm_sample_def example_params_def stored_sample_def Let_def pad_to_def)

text \<open>
The theorem at a sample of five tokens packed from sequences of lengths 3 and 2, with
  block size 7: a \<open>3 \<times> 3\<close> and a \<open>2 \<times> 2\<close> lower-triangular block, an identity block on the
  two pad tokens, and positions \<open>0, 1, 2, 0, 1\<close> continued by \<open>2, 3\<close>.
\<close>

theorem C7_packed_mask_and_positions_witness:
  "\<exists>r. prepare_alm_sample (example_params\<lparr>block_size := 7\<rparr>)
          (stored_sample [1, 2, 3, 4, 5] [2, 3, 4, 5, 6] None (Some [3, 2])) = Inr r
      \<and> input_pos r = Some [0, 1, 2, 0, 1, 2, 3]
      \<and> attn_mask r = Some
           [[True, False, False, False, False, False, False],
            [True, True, False, False, False, False, False],
            [True, True, True, False, False, False, False],
            [False, False, False, True, False, False, False],
            [False, False, False, True, True, False, False],
            [False, False, False, False, False, True, False],
            [False, False, False, False, False, False, True]]"
proof -
  let ?p = "example_params\<lparr>block_size := 7\<rparr>"
  let ?s = "stored_sample [1, 2, 3, 4, 5] [2, 3, 4, 5, 6] None (Some [3, 2])"
  have a1: "input_ids ?s = Some [1, 2, 3, 4, 5]" and a2: "target_ids ?s = Some [2, 3, 4, 5, 6]"
    and a3: "seq_lens ?s = Some [3, 2]"
    by (simp_all add: stored_sample_def)
  have L: "(7::nat) = (if 0 \<le> pad_token_id ?p then max (block_size ?p) (length [1, 2, 3, 4, 5::int])
                       else length [1, 2, 3, 4, 5::int])"
    by (simp add: example_params_def)
  have lt: "sum_list [3, 2::nat] < 7" by simp
  have pos: "0 < sum_list [3, 2::nat]" by simp
  from C7_packed_mask_and_positions [OF a1 a2 a3 L lt pos]
  obtain r P M where r: "prepare_alm_sample ?p ?s = Inr r"
    and rp: "input_pos r = Some P" and rm: "attn_mask r = Some M"
    and P: "P = concat (map (\<lambda>n. [0..<n]) [3, 2])
            @ [last (concat (map (\<lambda>n. [0..<n]) [3, 2])) + 1
               ..< last (concat (map (\<lambda>n. [0..<n]) [3, 2])) + 1 + (7 - sum_list [3, 2])]"
    and M: "M = block_diag (map tril_ones [3, 2] @ [eye (7 - sum_list [3, 2])])"
    by (elim exE conjE)
  have pv: "concat (map (\<lambda>n. [0..<n]) [3, 2])
            @ [last (concat (map (\<lambda>n. [0..<n]) [3, 2])) + 1
               ..< last (concat (map (\<lambda>n. [0..<n]) [3, 2])) + 1 + (7 - sum_list [3, 2])]
          = [0, 1, 2, 0, 1, 2, 3::nat]"
    by code_simp
  have mv: "block_diag (map tril_ones [3, 2] @ [eye (7 - sum_list [3, 2])])
          = [[True, False, False, False, False, False, False],
             [True, True, False, False, False, False, False],
             [True, True, True, False, False, False, False],
             [False, False, False, True, False, False, False],
             [False, False, False, True, True, False, False],
             [False, False, False, False, False, True, False],
             [False, False, False, False, False, False, True]]"
    by code_simp
  have "prepare_alm_sample ?p ?s = Inr r
      \<and> input_pos r = Some [0, 1, 2, 0, 1, 2, 3]
      \<and> attn_mask r = Some
           [[True, False, False, False, False, False, False],
            [True, True, False, False, False, False, False],
            [True, True, True, False, False, False, False],
            [False, False, False, True, False, False, False],
            [False, False, False, True, True, False, False],
            [False, False, False, False, False, True, False],
            [False, False, False, False, False, False, True]]"
    using r rp [unfolded P pv] rm [unfolded M mv] by (intro conjI)
  then show ?thesis by (intro exI [of _ r])
qed

end
